theory Spec2Isabelle
  imports Complex_Main "HOL-Library.Monad_Syntax" "HOL-Library.Sublist"
begin

section \<open>The skip list of \<^verbatim>\<open>skip_list.hpp\<close>: heap model\<close>

text \<open>
  Nodes live in a heap addressed by natural numbers. A pointer \<^verbatim>\<open>Node*\<close> is an
  \<open>addr option\<close> (\<open>None\<close> is \<^verbatim>\<open>nullptr\<close>). Every operation returns an
  \<open>option\<close>: \<open>None\<close> stands for undefined behaviour of the C++ program (dereferencing
  \<^verbatim>\<open>nullptr\<close> or a freed node, indexing a vector out of range, deleting twice) and
  for a loop that does not return.

  \<^verbatim>\<open>int\<close> is modelled by \<open>int\<close>: the only arithmetic on levels is \<^verbatim>\<open>maxLevel_ + 1\<close>
  and unit steps of loop counters, all bounded by the height of the list.
  \<^verbatim>\<open>double\<close> values are only compared, and are modelled by \<open>real\<close>.
  The random engine \<^verbatim>\<open>std::mt19937\<close> with its distribution is a parameter
  \<open>draw :: 'g \<Rightarrow> real \<times> 'g\<close>: a draw returns a value and the next engine state.
  The key type is a linear order (\<^verbatim>\<open>operator<\<close> and \<^verbatim>\<open>operator==\<close>);
  its default value \<^verbatim>\<open>Key()\<close> is a parameter \<open>dk\<close>.
\<close>

type_synonym addr = nat

record 'k Node =
  key :: 'k
  nxt :: "addr option list"

record 'k heap =
  cells :: "addr \<Rightarrow> 'k Node option"
  lim :: addr

record ('k, 'g) SkipList =
  head :: "addr option"
  maxLevel :: int
  maxAllowedLevel :: int
  probability :: real
  rng :: 'g

text \<open>\<^verbatim>\<open>new Node(k, level)\<close>: the node gets the next unused address; its vector of
  links has \<open>level\<close> entries, all \<^verbatim>\<open>nullptr\<close>. Allocation does not fail in the model,
  and a freed address is not handed out again.\<close>

definition new_Node :: "'k \<Rightarrow> int \<Rightarrow> 'k heap \<Rightarrow> addr \<times> 'k heap" where
  "new_Node k level H =
     (lim H, H\<lparr>cells := (cells H)(lim H \<mapsto> \<lparr>key = k, nxt = replicate (nat level) None\<rparr>),
               lim := Suc (lim H)\<rparr>)"

text \<open>\<^verbatim>\<open>delete p\<close> for a non-null pointer.\<close>

definition delete_Node :: "addr \<Rightarrow> 'k heap \<Rightarrow> 'k heap option" where
  "delete_Node a H =
     (case cells H a of None \<Rightarrow> None
      | Some n \<Rightarrow> Some (H\<lparr>cells := (cells H)(a := None)\<rparr>))"

text \<open>\<^verbatim>\<open>p->next[i]\<close> as a read and as a write, and \<^verbatim>\<open>p->key\<close>.\<close>

definition get_next :: "'k heap \<Rightarrow> addr \<Rightarrow> nat \<Rightarrow> addr option option" where
  "get_next H a i =
     (case cells H a of None \<Rightarrow> None
      | Some n \<Rightarrow> if i < length (nxt n) then Some (nxt n ! i) else None)"

definition set_next :: "addr \<Rightarrow> nat \<Rightarrow> addr option \<Rightarrow> 'k heap \<Rightarrow> 'k heap option" where
  "set_next a i v H =
     (case cells H a of None \<Rightarrow> None
      | Some n \<Rightarrow> if i < length (nxt n)
                  then Some (H\<lparr>cells := (cells H)(a \<mapsto> n\<lparr>nxt := (nxt n)[i := v]\<rparr>)\<rparr>)
                  else None)"

definition get_key :: "'k heap \<Rightarrow> addr \<Rightarrow> 'k option" where
  "get_key H a = map_option key (cells H a)"

text \<open>\<^verbatim>\<open>std::vector::resize(n, v)\<close>.\<close>

definition resize :: "nat \<Rightarrow> 'a \<Rightarrow> 'a list \<Rightarrow> 'a list" where
  "resize n v xs = take n xs @ replicate (n - length xs) v"

section \<open>Construction\<close>

text \<open>The constructor; \<open>g\<close> is the state of the engine after seeding.\<close>

definition SkipList :: "'k \<Rightarrow> real \<Rightarrow> int \<Rightarrow> 'g \<Rightarrow> 'k heap \<Rightarrow> 'k heap \<times> ('k, 'g) SkipList" where
  "SkipList dk p maxAllowed g H =
     (let (a, H') = new_Node dk 1 H
      in (H', \<lparr>head = Some a, maxLevel = 1, maxAllowedLevel = maxAllowed,
               probability = p, rng = g\<rparr>))"

section \<open>Random level\<close>

text \<open>The loop of \<^verbatim>\<open>randomLevel\<close>: each test of the condition draws first.\<close>

function randomLevel_loop ::
  "('g \<Rightarrow> real \<times> 'g) \<Rightarrow> ('k, 'g) SkipList \<Rightarrow> int \<Rightarrow> 'g \<Rightarrow> int \<times> 'g" where
  "randomLevel_loop draw s level g =
     (if fst (draw g) < probability s \<and> level < maxAllowedLevel s \<and> level < maxLevel s + 1
      then randomLevel_loop draw s (level + 1) (snd (draw g))
      else (level, snd (draw g)))"
  by pat_completeness auto
termination
  by (relation "measure (\<lambda>(draw, s, level, g). nat (maxAllowedLevel s - level))") auto

definition randomLevel :: "('g \<Rightarrow> real \<times> 'g) \<Rightarrow> ('k, 'g) SkipList \<Rightarrow> int \<times> ('k, 'g) SkipList" where
  "randomLevel draw s =
     (let (level, g) = randomLevel_loop draw s 1 (rng s)
      in (level, s\<lparr>rng := g\<rparr>))"

section \<open>Search\<close>

text \<open>The inner loop
  \<^verbatim>\<open>while (cur->next[i] && cur->next[i]->key < key) cur = cur->next[i];\<close>\<close>

partial_function (option) advance :: "'k::linorder heap \<Rightarrow> 'k \<Rightarrow> nat \<Rightarrow> addr \<Rightarrow> addr option" where
  "advance H k i cur =
     (case get_next H cur i of None \<Rightarrow> None
      | Some None \<Rightarrow> Some cur
      | Some (Some a) \<Rightarrow>
          (case get_key H a of None \<Rightarrow> None
           | Some ka \<Rightarrow> if ka < k then advance H k i a else Some cur))"

declare advance.simps [code]

text \<open>The outer loop of \<^verbatim>\<open>insert\<close> and \<^verbatim>\<open>erase\<close>,
  \<^verbatim>\<open>for (int i = maxLevel_ - 1; i >= 0; --i) { ...; update[i] = cur; }\<close>;
  the first argument is \<open>i + 1\<close>.\<close>

fun find_preds ::
  "nat \<Rightarrow> 'k::linorder heap \<Rightarrow> 'k \<Rightarrow> addr \<Rightarrow> addr option list \<Rightarrow> (addr \<times> addr option list) option" where
  "find_preds 0 H k cur update = Some (cur, update)"
| "find_preds (Suc i) H k cur update =
     (case advance H k i cur of None \<Rightarrow> None
      | Some c \<Rightarrow> if i < length update then find_preds i H k c (update[i := Some c]) else None)"

text \<open>The same loop in \<^verbatim>\<open>contains\<close>, which records no predecessors.\<close>

fun descend :: "nat \<Rightarrow> 'k::linorder heap \<Rightarrow> 'k \<Rightarrow> addr \<Rightarrow> addr option" where
  "descend 0 H k cur = Some cur"
| "descend (Suc i) H k cur =
     (case advance H k i cur of None \<Rightarrow> None | Some c \<Rightarrow> descend i H k c)"

text \<open>\<^verbatim>\<open>cur = cur->next[0]; cur && cur->key == key\<close>\<close>

definition candidate_is :: "'k heap \<Rightarrow> 'k \<Rightarrow> addr \<Rightarrow> (addr option \<times> bool) option" where
  "candidate_is H k cur =
     (case get_next H cur 0 of None \<Rightarrow> None
      | Some None \<Rightarrow> Some (None, False)
      | Some (Some c) \<Rightarrow>
          (case get_key H c of None \<Rightarrow> None | Some kc \<Rightarrow> Some (Some c, kc = k)))"

definition contains :: "'k::linorder heap \<Rightarrow> ('k, 'g) SkipList \<Rightarrow> 'k \<Rightarrow> bool option" where
  "contains H s k =
     (case head s of None \<Rightarrow> None
      | Some h \<Rightarrow>
          (case descend (nat (maxLevel s)) H k h of None \<Rightarrow> None
           | Some cur \<Rightarrow> map_option snd (candidate_is H k cur)))"

section \<open>Insertion\<close>

text \<open>A counted \<^verbatim>\<open>for\<close> loop over the given indices whose body may fail.\<close>

fun for_each :: "(nat \<Rightarrow> 'a \<Rightarrow> 'a option) \<Rightarrow> nat list \<Rightarrow> 'a \<Rightarrow> 'a option" where
  "for_each f [] x = Some x"
| "for_each f (i # is) x = (case f i x of None \<Rightarrow> None | Some y \<Rightarrow> for_each f is y)"

text \<open>\<^verbatim>\<open>head_->next.resize(newLevel, nullptr)\<close>\<close>

definition resize_next :: "addr \<Rightarrow> nat \<Rightarrow> 'k heap \<Rightarrow> 'k heap option" where
  "resize_next a n H =
     (case cells H a of None \<Rightarrow> None
      | Some nd \<Rightarrow> Some (H\<lparr>cells := (cells H)(a \<mapsto> nd\<lparr>nxt := resize n None (nxt nd)\<rparr>)\<rparr>))"

text \<open>The block under \<^verbatim>\<open>if (newLevel > maxLevel_)\<close>.\<close>

definition grow ::
  "addr \<Rightarrow> int \<Rightarrow> 'k heap \<Rightarrow> ('k, 'g) SkipList \<Rightarrow> addr option list \<Rightarrow>
     ('k heap \<times> ('k, 'g) SkipList \<times> addr option list) option" where
  "grow h newLevel H s update =
     (if newLevel > maxLevel s then
        (case resize_next h (nat newLevel) H of None \<Rightarrow> None
         | Some H' \<Rightarrow>
             Some (H', s\<lparr>maxLevel := newLevel\<rparr>,
                   fold (\<lambda>i u. u[i := Some h]) [nat (maxLevel s)..<nat newLevel]
                     (resize (nat newLevel) None update)))
      else Some (H, s, update))"

text \<open>The body of the last loop of \<^verbatim>\<open>insert\<close>:
  \<^verbatim>\<open>newNode->next[i] = update[i]->next[i]; update[i]->next[i] = newNode;\<close>\<close>

definition splice_step :: "addr \<Rightarrow> addr option list \<Rightarrow> nat \<Rightarrow> 'k heap \<Rightarrow> 'k heap option" where
  "splice_step newNode update i H =
     (if i < length update then
        (case update ! i of None \<Rightarrow> None
         | Some u \<Rightarrow>
             (case get_next H u i of None \<Rightarrow> None
              | Some x \<Rightarrow>
                  (case set_next newNode i x H of None \<Rightarrow> None
                   | Some H1 \<Rightarrow> set_next u i (Some newNode) H1)))
      else None)"

definition insert_key ::
  "('g \<Rightarrow> real \<times> 'g) \<Rightarrow> 'k::linorder \<Rightarrow> 'k heap \<times> ('k, 'g) SkipList \<Rightarrow>
     ('k heap \<times> ('k, 'g) SkipList) option" where
  "insert_key draw k = (\<lambda>(H, s).
     case head s of None \<Rightarrow> None
     | Some h \<Rightarrow>
         (case find_preds (nat (maxLevel s)) H k h (replicate (nat (maxLevel s)) None) of
            None \<Rightarrow> None
          | Some (cur, update) \<Rightarrow>
              (case candidate_is H k cur of None \<Rightarrow> None
               | Some (c, found) \<Rightarrow>
                   if found then Some (H, s)
                   else
                     (let (newLevel, s1) = randomLevel draw s in
                      case grow h newLevel H s1 update of None \<Rightarrow> None
                      | Some (H2, s2, update2) \<Rightarrow>
                          (let (newNode, H3) = new_Node k newLevel H2 in
                           case for_each (splice_step newNode update2) [0..<nat newLevel] H3 of
                             None \<Rightarrow> None
                           | Some H4 \<Rightarrow> Some (H4, s2))))))"

section \<open>Removal\<close>

text \<open>The body of the unlinking loop of \<^verbatim>\<open>erase\<close>:
  \<^verbatim>\<open>if (update[i]->next[i] == cur) update[i]->next[i] = cur->next[i];\<close>\<close>

definition unlink_step :: "addr \<Rightarrow> addr option list \<Rightarrow> nat \<Rightarrow> 'k heap \<Rightarrow> 'k heap option" where
  "unlink_step cur update i H =
     (if i < length update then
        (case update ! i of None \<Rightarrow> None
         | Some u \<Rightarrow>
             (case get_next H u i of None \<Rightarrow> None
              | Some x \<Rightarrow>
                  if x = Some cur
                  then (case get_next H cur i of None \<Rightarrow> None | Some y \<Rightarrow> set_next u i y H)
                  else Some H))
      else None)"

text \<open>\<^verbatim>\<open>head_->next.pop_back()\<close>\<close>

definition pop_back_next :: "addr \<Rightarrow> 'k heap \<Rightarrow> 'k heap option" where
  "pop_back_next a H =
     (case cells H a of None \<Rightarrow> None
      | Some nd \<Rightarrow> if nxt nd = [] then None
                   else Some (H\<lparr>cells := (cells H)(a \<mapsto> nd\<lparr>nxt := butlast (nxt nd)\<rparr>)\<rparr>))"

text \<open>The loop
  \<^verbatim>\<open>while (maxLevel_ > 1 && head_->next[maxLevel_ - 1] == nullptr) { --maxLevel_; head_->next.pop_back(); }\<close>\<close>

function shrink :: "'k heap \<Rightarrow> ('k, 'g) SkipList \<Rightarrow> ('k heap \<times> ('k, 'g) SkipList) option" where
  "shrink H s =
     (if maxLevel s > 1 then
        (case head s of None \<Rightarrow> None
         | Some h \<Rightarrow>
             (case get_next H h (nat (maxLevel s - 1)) of None \<Rightarrow> None
              | Some (Some a) \<Rightarrow> Some (H, s)
              | Some None \<Rightarrow>
                  (case pop_back_next h H of None \<Rightarrow> None
                   | Some H' \<Rightarrow> shrink H' (s\<lparr>maxLevel := maxLevel s - 1\<rparr>))))
      else Some (H, s))"
  by pat_completeness auto
termination
  by (relation "measure (\<lambda>(H, s). nat (maxLevel s))") auto

definition erase ::
  "'k::linorder \<Rightarrow> 'k heap \<times> ('k, 'g) SkipList \<Rightarrow> (bool \<times> 'k heap \<times> ('k, 'g) SkipList) option" where
  "erase k = (\<lambda>(H, s).
     case head s of None \<Rightarrow> None
     | Some h \<Rightarrow>
         (case find_preds (nat (maxLevel s)) H k h (replicate (nat (maxLevel s)) None) of
            None \<Rightarrow> None
          | Some (cur0, update) \<Rightarrow>
              (case candidate_is H k cur0 of None \<Rightarrow> None
               | Some (c, found) \<Rightarrow>
                   (case c of None \<Rightarrow> Some (False, H, s)
                    | Some cur \<Rightarrow>
                        if \<not> found then Some (False, H, s)
                        else
                          (case for_each (unlink_step cur update) [0..<nat (maxLevel s)] H of
                             None \<Rightarrow> None
                           | Some H1 \<Rightarrow>
                               (case delete_Node cur H1 of None \<Rightarrow> None
                                | Some H2 \<Rightarrow> map_option (Pair True) (shrink H2 s)))))))"

section \<open>Iteration\<close>

datatype Iterator = Iterator (node: "addr option")

definition begin_it :: "'k heap \<Rightarrow> ('k, 'g) SkipList \<Rightarrow> Iterator option" where
  "begin_it H s =
     (case head s of None \<Rightarrow> None | Some h \<Rightarrow> map_option Iterator (get_next H h 0))"

definition end_it :: Iterator where
  "end_it = Iterator None"

text \<open>\<^verbatim>\<open>operator*\<close> and \<^verbatim>\<open>operator++\<close>; the failed \<^verbatim>\<open>assert(node_)\<close> does not return.\<close>

definition deref_it :: "'k heap \<Rightarrow> Iterator \<Rightarrow> 'k option" where
  "deref_it H it = (case node it of None \<Rightarrow> None | Some a \<Rightarrow> get_key H a)"

definition incr_it :: "'k heap \<Rightarrow> Iterator \<Rightarrow> Iterator option" where
  "incr_it H it =
     (case node it of None \<Rightarrow> None | Some a \<Rightarrow> map_option Iterator (get_next H a 0))"

text \<open>The client loop of \<^verbatim>\<open>test.cpp\<close>,
  \<^verbatim>\<open>for (auto it = list.begin(); it != list.end(); ++it) ... *it ...\<close>,
  collecting the keys it reads.\<close>

partial_function (option) iterate :: "'k heap \<Rightarrow> Iterator \<Rightarrow> 'k list option" where
  "iterate H it =
     (if it \<noteq> end_it then
        (case deref_it H it of None \<Rightarrow> None
         | Some k \<Rightarrow>
             (case incr_it H it of None \<Rightarrow> None
              | Some it' \<Rightarrow> Option.bind (iterate H it') (\<lambda>ks. Some (k # ks))))
      else Some [])"

declare iterate.simps [code]

definition to_list :: "'k heap \<Rightarrow> ('k, 'g) SkipList \<Rightarrow> 'k list option" where
  "to_list H s = (case begin_it H s of None \<Rightarrow> None | Some it \<Rightarrow> iterate H it)"

section \<open>Diagnostic dump\<close>

text \<open>The output stream is the list of the values inserted into it with \<^verbatim>\<open><<\<close>,
  oldest first.\<close>

datatype 'k out = OStr string | OInt int | ODouble real | OKey 'k | OChar char

text \<open>\<^verbatim>\<open>while (node) { os << node->key << ' '; node = node->next[i]; }\<close>\<close>

partial_function (option) print_nodes ::
  "'k heap \<Rightarrow> nat \<Rightarrow> addr option \<Rightarrow> 'k out list \<Rightarrow> 'k out list option" where
  "print_nodes H i nd os =
     (case nd of None \<Rightarrow> Some os
      | Some a \<Rightarrow>
          (case get_key H a of None \<Rightarrow> None
           | Some k \<Rightarrow>
               (case get_next H a i of None \<Rightarrow> None
                | Some nd' \<Rightarrow> print_nodes H i nd' (os @ [OKey k, OChar CHR '' '']))))"

declare print_nodes.simps [code]

text \<open>The loop over the levels; the first argument is \<open>i + 1\<close>.\<close>

fun print_levels ::
  "nat \<Rightarrow> 'k heap \<Rightarrow> addr \<Rightarrow> 'k out list \<Rightarrow> 'k out list option" where
  "print_levels 0 H h os = Some os"
| "print_levels (Suc i) H h os =
     (case get_next H h i of None \<Rightarrow> None
      | Some nd \<Rightarrow>
          (case print_nodes H i nd (os @ [OStr ''Level '', OInt (int i), OStr '': '']) of
             None \<Rightarrow> None
           | Some os' \<Rightarrow> print_levels i H h (os' @ [OChar (CHR 0x0A)])))"

text \<open>\<^verbatim>\<open>printByLevels\<close>; the final \<^verbatim>\<open>os.flush()\<close> writes nothing. The method is
  \<^verbatim>\<open>const\<close> and only reads heap and list, so the model returns the stream alone.\<close>

definition printByLevels ::
  "'k heap \<Rightarrow> ('k, 'g) SkipList \<Rightarrow> 'k out list \<Rightarrow> 'k out list option" where
  "printByLevels H s os =
     (case head s of
        None \<Rightarrow> Some (os @ [OStr (''SkipList (empty - moved from)'' @ [CHR 0x0A])])
      | Some h \<Rightarrow>
          print_levels (nat (maxLevel s)) H h
            (os @ [OStr ''SkipList (levels = '', OInt (maxLevel s), OStr '', p = '',
                   ODouble (probability s), OStr (''):'' @ [CHR 0x0A])]))"

section \<open>Destruction and move\<close>

text \<open>\<^verbatim>\<open>while (cur) { Node* next = cur->next[0]; delete cur; cur = next; }\<close>\<close>

partial_function (option) delete_nodes :: "addr option \<Rightarrow> 'k heap \<Rightarrow> 'k heap option" where
  "delete_nodes cur H =
     (case cur of None \<Rightarrow> Some H
      | Some a \<Rightarrow>
          (case get_next H a 0 of None \<Rightarrow> None
           | Some nx \<Rightarrow>
               (case delete_Node a H of None \<Rightarrow> None | Some H' \<Rightarrow> delete_nodes nx H')))"

declare delete_nodes.simps [code]

text \<open>The body of the destructor, which the move assignment repeats.\<close>

definition release :: "'k heap \<Rightarrow> ('k, 'g) SkipList \<Rightarrow> 'k heap option" where
  "release H s =
     (case head s of None \<Rightarrow> Some H
      | Some h \<Rightarrow>
          (case get_next H h 0 of None \<Rightarrow> None
           | Some cur \<Rightarrow>
               (case delete_nodes cur H of None \<Rightarrow> None | Some H' \<Rightarrow> delete_Node h H')))"

text \<open>\<^verbatim>\<open>if (!head_) head_ = new Node(Key(), maxLevel_);\<close>, the body of
  \<^verbatim>\<open>resetToEmpty\<close>, which both moves also run on the destination.\<close>

definition resetToEmpty :: "'k \<Rightarrow> 'k heap \<times> ('k, 'g) SkipList \<Rightarrow> 'k heap \<times> ('k, 'g) SkipList" where
  "resetToEmpty dk = (\<lambda>(H, s).
     case head s of
       None \<Rightarrow> (let (a, H') = new_Node dk (maxLevel s) H in (H', s\<lparr>head := Some a\<rparr>))
     | Some h \<Rightarrow> (H, s))"

text \<open>The transfer of the members, common to both moves: the destination takes the
  members of \<open>other\<close> (the engine is copied: it has no move constructor of its own),
  \<open>other\<close> keeps a null head and level 1; then both get a head if they have none.
  The result is the heap, the destination and the source.\<close>

definition transfer ::
  "'k \<Rightarrow> 'k heap \<Rightarrow> ('k, 'g) SkipList \<Rightarrow> 'k heap \<times> ('k, 'g) SkipList \<times> ('k, 'g) SkipList" where
  "transfer dk H other =
     (let self0 = \<lparr>head = head other, maxLevel = maxLevel other,
                    maxAllowedLevel = maxAllowedLevel other,
                    probability = probability other, rng = rng other\<rparr>;
          other0 = other\<lparr>head := None, maxLevel := 1\<rparr>;
          (H1, self1) = resetToEmpty dk (H, self0);
          (H2, other1) = resetToEmpty dk (H1, other0)
      in (H2, self1, other1))"

definition move_construct ::
  "'k \<Rightarrow> 'k heap \<Rightarrow> ('k, 'g) SkipList \<Rightarrow> 'k heap \<times> ('k, 'g) SkipList \<times> ('k, 'g) SkipList" where
  "move_construct dk H other = transfer dk H other"

section \<open>Several list objects in one heap\<close>

text \<open>List objects are identified by numbers; \<^verbatim>\<open>this != &other\<close> compares them.\<close>

record ('k, 'g) world =
  heap :: "'k heap"
  objs :: "nat \<Rightarrow> ('k, 'g) SkipList option"

definition move_assign :: "'k \<Rightarrow> nat \<Rightarrow> nat \<Rightarrow> ('k, 'g) world \<Rightarrow> ('k, 'g) world option" where
  "move_assign dk self other W =
     (case objs W self of None \<Rightarrow> None
      | Some t \<Rightarrow>
          (case objs W other of None \<Rightarrow> None
           | Some ot \<Rightarrow>
               if self \<noteq> other then
                 (case release (heap W) t of None \<Rightarrow> None
                  | Some H1 \<Rightarrow>
                      (let (H2, t', ot') = transfer dk H1 ot
                       in Some (W\<lparr>heap := H2, objs := (objs W)(self \<mapsto> t', other \<mapsto> ot')\<rparr>)))
               else Some W))"

section \<open>Client programs\<close>

text \<open>The calls a client can make on the list objects it names. A call on a name that is
  not a live object, or a construction under a name in use, is not a program and also
  yields \<open>None\<close>; \<open>valid\<close> below tells the two apart.\<close>

datatype ('k, 'g) cmd =
    Construct nat real int 'g
  | MoveConstruct nat nat
  | MoveAssign nat nat
  | Destroy nat
  | Insert nat 'k
  | Erase nat 'k
  | Contains nat 'k
  | PrintByLevels nat
  | Iterate nat

fun exec ::
  "('g \<Rightarrow> real \<times> 'g) \<Rightarrow> 'k::linorder \<Rightarrow> ('k, 'g) cmd \<Rightarrow> ('k, 'g) world \<Rightarrow> ('k, 'g) world option" where
  "exec draw dk (Construct i p m g) W =
     (case objs W i of Some s \<Rightarrow> None
      | None \<Rightarrow> (let (H', s) = SkipList dk p m g (heap W)
                 in Some (W\<lparr>heap := H', objs := (objs W)(i \<mapsto> s)\<rparr>)))"
| "exec draw dk (MoveConstruct i j) W =
     (case objs W i of Some s \<Rightarrow> None
      | None \<Rightarrow>
          (case objs W j of None \<Rightarrow> None
           | Some ot \<Rightarrow> (let (H', t, ot') = move_construct dk (heap W) ot
                         in Some (W\<lparr>heap := H', objs := (objs W)(i \<mapsto> t, j \<mapsto> ot')\<rparr>))))"
| "exec draw dk (MoveAssign i j) W = move_assign dk i j W"
| "exec draw dk (Destroy i) W =
     (case objs W i of None \<Rightarrow> None
      | Some s \<Rightarrow>
          (case release (heap W) s of None \<Rightarrow> None
           | Some H' \<Rightarrow> Some (W\<lparr>heap := H', objs := (objs W)(i := None)\<rparr>)))"
| "exec draw dk (Insert i k) W =
     (case objs W i of None \<Rightarrow> None
      | Some s \<Rightarrow>
          (case insert_key draw k (heap W, s) of None \<Rightarrow> None
           | Some (H', s') \<Rightarrow> Some (W\<lparr>heap := H', objs := (objs W)(i \<mapsto> s')\<rparr>)))"
| "exec draw dk (Erase i k) W =
     (case objs W i of None \<Rightarrow> None
      | Some s \<Rightarrow>
          (case erase k (heap W, s) of None \<Rightarrow> None
           | Some (b, H', s') \<Rightarrow> Some (W\<lparr>heap := H', objs := (objs W)(i \<mapsto> s')\<rparr>)))"
| "exec draw dk (Contains i k) W =
     (case objs W i of None \<Rightarrow> None
      | Some s \<Rightarrow> (case contains (heap W) s k of None \<Rightarrow> None | Some b \<Rightarrow> Some W))"
| "exec draw dk (PrintByLevels i) W =
     (case objs W i of None \<Rightarrow> None
      | Some s \<Rightarrow> (case printByLevels (heap W) s [] of None \<Rightarrow> None | Some os \<Rightarrow> Some W))"
| "exec draw dk (Iterate i) W =
     (case objs W i of None \<Rightarrow> None
      | Some s \<Rightarrow> (case to_list (heap W) s of None \<Rightarrow> None | Some ks \<Rightarrow> Some W))"

fun valid :: "('k, 'g) cmd \<Rightarrow> ('k, 'g) world \<Rightarrow> bool" where
  "valid (Construct i p m g) W = (objs W i = None)"
| "valid (MoveConstruct i j) W = (objs W i = None \<and> objs W j \<noteq> None)"
| "valid (MoveAssign i j) W = (objs W i \<noteq> None \<and> objs W j \<noteq> None)"
| "valid (Destroy i) W = (objs W i \<noteq> None)"
| "valid (Insert i k) W = (objs W i \<noteq> None)"
| "valid (Erase i k) W = (objs W i \<noteq> None)"
| "valid (Contains i k) W = (objs W i \<noteq> None)"
| "valid (PrintByLevels i) W = (objs W i \<noteq> None)"
| "valid (Iterate i) W = (objs W i \<noteq> None)"

definition init_world :: "('k, 'g) world" where
  "init_world = \<lparr>heap = \<lparr>cells = (\<lambda>a. None), lim = 0\<rparr>, objs = (\<lambda>i. None)\<rparr>"

text \<open>The states a client program can reach.\<close>

inductive reach :: "('g \<Rightarrow> real \<times> 'g) \<Rightarrow> 'k::linorder \<Rightarrow> ('k, 'g) world \<Rightarrow> bool"
  for draw :: "'g \<Rightarrow> real \<times> 'g" and dk :: 'k where
  init: "reach draw dk init_world"
| step: "reach draw dk W \<Longrightarrow> exec draw dk c W = Some W' \<Longrightarrow> reach draw dk W'"

text \<open>A run of a program.\<close>

fun run ::
  "('g \<Rightarrow> real \<times> 'g) \<Rightarrow> 'k::linorder \<Rightarrow> ('k, 'g) cmd list \<Rightarrow> ('k, 'g) world \<Rightarrow> ('k, 'g) world option" where
  "run draw dk [] W = Some W"
| "run draw dk (c # cs) W =
     (case exec draw dk c W of None \<Rightarrow> None | Some W' \<Rightarrow> run draw dk cs W')"

section \<open>Abstraction: the levels as paths in the heap\<close>

text \<open>The number of links of the node at an address (0 when nothing is allocated
  there) and its key.\<close>

definition lvl :: "'k heap \<Rightarrow> addr \<Rightarrow> nat" where
  "lvl H a = (case cells H a of None \<Rightarrow> 0 | Some n \<Rightarrow> length (nxt n))"

definition ky :: "'k heap \<Rightarrow> addr \<Rightarrow> 'k" where
  "ky H a = key (the (cells H a))"

text \<open>\<open>seg H i p as q\<close>: following the links of level \<open>i\<close> from the pointer \<open>p\<close>
  visits exactly the nodes \<open>as\<close>, in order, and ends with the pointer \<open>q\<close>.\<close>

fun seg :: "'k heap \<Rightarrow> nat \<Rightarrow> addr option \<Rightarrow> addr list \<Rightarrow> addr option \<Rightarrow> bool" where
  "seg H i p [] q = (p = q)"
| "seg H i p (a # as) q =
     (p = Some a \<and> (case get_next H a i of None \<Rightarrow> False | Some r \<Rightarrow> seg H i r as q))"

text \<open>Nothing is allocated at or beyond the next unused address.\<close>

definition heap_ok :: "'k heap \<Rightarrow> bool" where
  "heap_ok H = (\<forall>a. lim H \<le> a \<longrightarrow> cells H a = None)"

text \<open>The list with head \<open>h\<close> is well formed with the nodes \<open>ns\<close> (in the order of
  level 0): every node has at least one link and at most as many as the head, the keys
  increase strictly, and the path of each level \<open>i\<close> from the head consists of the
  nodes with more than \<open>i\<close> links and ends with the null pointer.\<close>

definition wfh :: "'k::linorder heap \<Rightarrow> addr \<Rightarrow> addr list \<Rightarrow> bool" where
  "wfh H h ns =
     (0 < lvl H h \<and> h \<notin> set ns \<and>
      (\<forall>a\<in>set ns. 0 < lvl H a \<and> lvl H a \<le> lvl H h) \<and>
      sorted_wrt (<) (map (ky H) ns) \<and>
      (\<forall>i<lvl H h. seg H i (Some h) (h # filter (\<lambda>a. i < lvl H a) ns) None))"

definition wf_nodes :: "'k::linorder heap \<Rightarrow> ('k, 'g) SkipList \<Rightarrow> addr list \<Rightarrow> bool" where
  "wf_nodes H s ns =
     (case head s of None \<Rightarrow> False
      | Some h \<Rightarrow> maxLevel s = int (lvl H h) \<and> wfh H h ns)"

text \<open>The nodes of level \<open>i\<close> with a key below \<open>k\<close>, after the head.\<close>

definition lower :: "'k::linorder heap \<Rightarrow> 'k \<Rightarrow> addr \<Rightarrow> addr list \<Rightarrow> nat \<Rightarrow> addr list" where
  "lower H k h ns i = h # filter (\<lambda>a. i < lvl H a \<and> ky H a < k) ns"

definition pred :: "'k::linorder heap \<Rightarrow> 'k \<Rightarrow> addr \<Rightarrow> addr list \<Rightarrow> nat \<Rightarrow> addr" where
  "pred H k h ns i = last (lower H k h ns i)"

definition upper :: "'k::linorder heap \<Rightarrow> 'k \<Rightarrow> addr list \<Rightarrow> nat \<Rightarrow> addr list" where
  "upper H k ns i = filter (\<lambda>a. i < lvl H a \<and> \<not> ky H a < k) ns"

declare randomLevel_loop.simps [simp del]

text \<open>The nodes of level \<open>i\<close> with a key above \<open>k\<close>.\<close>

definition beyond :: "'k::linorder heap \<Rightarrow> 'k \<Rightarrow> addr list \<Rightarrow> nat \<Rightarrow> addr list" where
  "beyond H k ns i = filter (\<lambda>a. i < lvl H a \<and> k < ky H a) ns"

declare shrink.simps [simp del]

text \<open>What the dump writes for the nodes of a level, and the whole line of a level.\<close>

definition key_items :: "'k heap \<Rightarrow> addr list \<Rightarrow> 'k out list" where
  "key_items H as = concat (map (\<lambda>a. [OKey (ky H a), OChar CHR '' '']) as)"

definition level_line :: "'k heap \<Rightarrow> addr list \<Rightarrow> nat \<Rightarrow> 'k out list" where
  "level_line H ns i =
     [OStr ''Level '', OInt (int i), OStr '': ''] @
     key_items H (filter (\<lambda>a. i < lvl H a) ns) @ [OChar (CHR 0x0A)]"

section \<open>The level generator as the specification words it, and examples\<close>

text \<open>The loop of the level generator as the specification words it: the level rises
  while the draw is below \<open>p\<close>, the level is below the maximum allowed height, and the
  level does not exceed the current height plus one.\<close>

function randomLevel_stated_loop ::
  "('g \<Rightarrow> real \<times> 'g) \<Rightarrow> ('k, 'g) SkipList \<Rightarrow> int \<Rightarrow> 'g \<Rightarrow> int \<times> 'g" where
  "randomLevel_stated_loop draw s level g =
     (if fst (draw g) < probability s \<and> level < maxAllowedLevel s \<and> level \<le> maxLevel s + 1
      then randomLevel_stated_loop draw s (level + 1) (snd (draw g))
      else (level, snd (draw g)))"
  by pat_completeness auto
termination
  by (relation "measure (\<lambda>(draw, s, level, g). nat (maxAllowedLevel s - level))") auto

declare randomLevel_stated_loop.simps [simp del]

definition randomLevel_stated :: "('g \<Rightarrow> real \<times> 'g) \<Rightarrow> ('k, 'g) SkipList \<Rightarrow> int" where
  "randomLevel_stated draw s = fst (randomLevel_stated_loop draw s 1 (rng s))"

text \<open>An engine whose every draw is 0, and a list of height 1 with the default cap.\<close>

definition low_draw :: "nat \<Rightarrow> real \<times> nat" where
  "low_draw g = (0, Suc g)"

definition flat_list :: "(nat, nat) SkipList" where
  "flat_list = \<lparr>head = Some 0, maxLevel = 1, maxAllowedLevel = 32, probability = 1 / 2, rng = 0\<rparr>"

text \<open>The engine state after \<open>n\<close> draws.\<close>

definition after_draws :: "('g \<Rightarrow> real \<times> 'g) \<Rightarrow> 'g \<Rightarrow> nat \<Rightarrow> 'g" where
  "after_draws draw g n = ((\<lambda>x. snd (draw x)) ^^ n) g"

text \<open>The condition of the loop of \<open>randomLevel\<close> at level \<open>L\<close>, on the draw number \<open>L\<close>.\<close>

definition rises :: "('g \<Rightarrow> real \<times> 'g) \<Rightarrow> ('k, 'g) SkipList \<Rightarrow> int \<Rightarrow> bool" where
  "rises draw s L =
     (fst (draw (after_draws draw (rng s) (nat (L - 1)))) < probability s \<and>
      L < maxAllowedLevel s \<and> L \<le> maxLevel s)"

section \<open>The invariant of the heap and its lists\<close>

text \<open>The nodes a list owns: its head and the nodes of level 0.\<close>

definition fp :: "('k, 'g) SkipList \<Rightarrow> addr list \<Rightarrow> addr set" where
  "fp s ns = set_option (head s) \<union> set ns"

text \<open>The heap is well formed with the node lists \<open>f\<close>: every live list is well formed
  with its nodes and its height is at most its cap (or 1), and no two live lists share
  a node.\<close>

definition winv_f :: "('k::linorder, 'g) world \<Rightarrow> (nat \<Rightarrow> addr list) \<Rightarrow> bool" where
  "winv_f W f =
     (heap_ok (heap W) \<and>
      (\<forall>i s. objs W i = Some s \<longrightarrow>
         wf_nodes (heap W) s (f i) \<and> maxLevel s \<le> max 1 (maxAllowedLevel s)) \<and>
      (\<forall>i j s t. i \<noteq> j \<longrightarrow> objs W i = Some s \<longrightarrow> objs W j = Some t \<longrightarrow>
         fp s (f i) \<inter> fp t (f j) = {}))"

definition winv :: "('k::linorder, 'g) world \<Rightarrow> bool" where
  "winv W = (\<exists>f. winv_f W f)"

text \<open>The nodes owned by the object named \<open>i\<close>, if it is live.\<close>

definition owned :: "('k, 'g) world \<Rightarrow> (nat \<Rightarrow> addr list) \<Rightarrow> nat \<Rightarrow> addr set" where
  "owned W f i = (case objs W i of None \<Rightarrow> {} | Some s \<Rightarrow> fp s (f i))"

text \<open>Insertion into and removal from a strictly ascending key sequence.\<close>

definition ins_keys :: "'k::linorder \<Rightarrow> 'k list \<Rightarrow> 'k list" where
  "ins_keys k ks = (if k \<in> set ks then ks else filter (\<lambda>x. x < k) ks @ k # filter (\<lambda>x. \<not> x < k) ks)"

text \<open>The updates of one list, and the calls that make them on the object \<open>i\<close>.\<close>

datatype 'k upd = Ins 'k | Era 'k

fun on :: "nat \<Rightarrow> 'k upd \<Rightarrow> ('k, 'g) cmd" where
  "on i (Ins k) = Insert i k"
| "on i (Era k) = Erase i k"

fun apply_upd :: "'k::linorder upd \<Rightarrow> 'k list \<Rightarrow> 'k list" where
  "apply_upd (Ins k) ks = ins_keys k ks"
| "apply_upd (Era k) ks = filter (\<lambda>x. x \<noteq> k) ks"

text \<open>\<open>k\<close> was inserted at some point of the sequence and not erased after that point.\<close>

fun inserted_not_erased :: "'k \<Rightarrow> 'k upd list \<Rightarrow> bool" where
  "inserted_not_erased k [] = False"
| "inserted_not_erased k (u # us) = ((u = Ins k \<and> Era k \<notin> set us) \<or> inserted_not_erased k us)"

text \<open>A reachable state for the examples: one empty list, named 0, with the default cap,
  and an engine whose draws are all 0.\<close>

definition demo_world :: "(nat, nat) world" where
  "demo_world =
     \<lparr>heap = \<lparr>cells = (\<lambda>a. None)(0 \<mapsto> \<lparr>key = 0, nxt = [None]\<rparr>), lim = Suc 0\<rparr>,
      objs = (\<lambda>i. None)(0 \<mapsto> flat_list)\<rparr>"

text \<open>The nodes reachable from the head along the links of level \<open>i\<close>, in order.\<close>

partial_function (option) walk :: "'k heap \<Rightarrow> nat \<Rightarrow> addr option \<Rightarrow> addr list option" where
  "walk H i p =
     (case p of None \<Rightarrow> Some []
      | Some a \<Rightarrow>
          (case get_next H a i of None \<Rightarrow> None
           | Some q \<Rightarrow> Option.bind (walk H i q) (\<lambda>as. Some (a # as))))"

declare walk.simps [code]

definition level_nodes :: "'k heap \<Rightarrow> ('k, 'g) SkipList \<Rightarrow> nat \<Rightarrow> addr list option" where
  "level_nodes H s i =
     (case head s of None \<Rightarrow> None
      | Some h \<Rightarrow> (case get_next H h i of None \<Rightarrow> None | Some p \<Rightarrow> walk H i p))"

text \<open>The structural invariants of a list: every active level is a finite path; the keys
  along level 0 increase strictly (so no key occurs twice); each level above 0 is a
  subsequence of the level below, and a node of a level is a node of every lower level;
  iteration yields the keys of level 0.\<close>

definition structural_inv :: "'k::linorder heap \<Rightarrow> ('k, 'g) SkipList \<Rightarrow> bool" where
  "structural_inv H s =
     (\<exists>L. 0 < nat (maxLevel s) \<and>
          (\<forall>i<nat (maxLevel s). level_nodes H s i = Some (L i)) \<and>
          sorted_wrt (<) (map (ky H) (L 0)) \<and> distinct (map (ky H) (L 0)) \<and>
          (\<forall>i<nat (maxLevel s). 0 < i \<longrightarrow> subseq (L i) (L (i - 1))) \<and>
          (\<forall>i<nat (maxLevel s). \<forall>j\<le>i. set (L i) \<subseteq> set (L j)) \<and>
          to_list H s = Some (map (ky H) (L 0)))"

text \<open>Example programs, run from the initial state with the engine whose draws are all
  0, so that each inserted node is one level higher than the list: the keys 7, 9, 8 get
  2, 3 and 4 links.\<close>

definition levels_prog :: "(nat, nat) cmd list" where
  "levels_prog = [Construct 0 (1 / 2) 32 0, Insert 0 7, Insert 0 9, Insert 0 8]"

definition levels_world :: "(nat, nat) world" where
  "levels_world = the (run low_draw 0 levels_prog init_world)"

definition levels_list :: "(nat, nat) SkipList" where
  "levels_list = the (objs levels_world 0)"

text \<open>Two live lists: list 0 holds 7 and 9, list 1 (another probability and cap) holds 3.\<close>

definition two_prog :: "(nat, nat) cmd list" where
  "two_prog = [Construct 0 (1 / 2) 32 0, Insert 0 7, Insert 0 9,
               Construct 1 (1 / 4) 16 5, Insert 1 3]"

definition two_world :: "(nat, nat) world" where
  "two_world = the (run low_draw 0 two_prog init_world)"

definition two_src :: "(nat, nat) SkipList" where
  "two_src = the (objs two_world 0)"

definition two_dst :: "(nat, nat) SkipList" where
  "two_dst = the (objs two_world 1)"

text \<open>The dump as the specification words it: for each active level from the topmost
  down to level 0, one line that holds exactly the keys of the level, separated by
  spaces.\<close>

fun sep_keys :: "'k list \<Rightarrow> 'k out list" where
  "sep_keys [] = []"
| "sep_keys [k] = [OKey k]"
| "sep_keys (k # ks) = OKey k # OChar CHR '' '' # sep_keys ks"

fun stated_levels :: "nat \<Rightarrow> 'k heap \<Rightarrow> ('k, 'g) SkipList \<Rightarrow> 'k out list option" where
  "stated_levels 0 H s = Some []"
| "stated_levels (Suc i) H s =
     (case level_nodes H s i of None \<Rightarrow> None
      | Some as \<Rightarrow>
          (case stated_levels i H s of None \<Rightarrow> None
           | Some rest \<Rightarrow> Some (sep_keys (map (ky H) as) @ [OChar (CHR 0x0A)] @ rest)))"

definition dump_stated :: "'k heap \<Rightarrow> ('k, 'g) SkipList \<Rightarrow> 'k out list option" where
  "dump_stated H s = stated_levels (nat (maxLevel s)) H s"

section \<open>Paths and the search\<close>

lemma wfh_lvl_head: "wfh H h ns \<Longrightarrow> 0 < lvl H h"
  and wfh_head_notin: "wfh H h ns \<Longrightarrow> h \<notin> set ns"
  and wfh_lvl_pos: "wfh H h ns \<Longrightarrow> a \<in> set ns \<Longrightarrow> 0 < lvl H a"
  and wfh_lvl_le: "wfh H h ns \<Longrightarrow> a \<in> set ns \<Longrightarrow> lvl H a \<le> lvl H h"
  and wfh_sorted: "wfh H h ns \<Longrightarrow> sorted_wrt (<) (map (ky H) ns)"
  and wfh_seg: "wfh H h ns \<Longrightarrow> i < lvl H h \<Longrightarrow> seg H i (Some h) (h # filter (\<lambda>a. i < lvl H a) ns) None"
  unfolding wfh_def by auto

lemma get_next_Some_iff: "(\<exists>r. get_next H a i = Some r) \<longleftrightarrow> i < lvl H a"
  by (auto simp: get_next_def lvl_def split: option.splits)

lemma get_next_None_iff: "get_next H a i = None \<longleftrightarrow> \<not> i < lvl H a"
  by (auto simp: get_next_def lvl_def split: option.splits)

lemma get_key_lvl: "0 < lvl H a \<Longrightarrow> get_key H a = Some (ky H a)"
  by (auto simp: get_key_def lvl_def ky_def split: option.splits)

lemma seg_append: "seg H i p (as @ bs) q \<longleftrightarrow> (\<exists>r. seg H i p as r \<and> seg H i r bs q)"
  by (induction as arbitrary: p) (auto split: option.splits)

lemma seg_lvl: "seg H i p as q \<Longrightarrow> a \<in> set as \<Longrightarrow> i < lvl H a"
  by (induction as arbitrary: p) (auto split: option.splits simp: get_next_Some_iff[symmetric])

lemma seg_cong:
  "(\<And>a. a \<in> set as \<Longrightarrow> get_next H' a i = get_next H a i) \<Longrightarrow> seg H' i p as q = seg H i p as q"
  by (induction as arbitrary: p) (auto split: option.splits)

lemma seg_fun: "seg H i p as None \<Longrightarrow> seg H i p bs None \<Longrightarrow> as = bs"
proof (induction as arbitrary: p bs)
  case Nil
  then show ?case by (cases bs) auto
next
  case (Cons a as)
  then show ?case by (cases bs) (auto split: option.splits)
qed

lemma sorted_wrt_filter_split:
  "sorted_wrt (<) (map f xs) \<Longrightarrow>
   xs = filter (\<lambda>a. f a < (k::'k::linorder)) xs @ filter (\<lambda>a. \<not> f a < k) xs"
proof (induction xs)
  case Nil
  then show ?case by simp
next
  case (Cons x xs)
  show ?case
  proof (cases "f x < k")
    case True
    with Cons show ?thesis by simp
  next
    case False
    with Cons.prems have "\<forall>y\<in>set xs. \<not> f y < k" by auto
    then have "filter (\<lambda>a. f a < k) xs = []" "filter (\<lambda>a. \<not> f a < k) xs = xs"
      by (auto simp: filter_empty_conv filter_id_conv)
    with False show ?thesis by simp
  qed
qed

lemma sorted_wrt_map_distinct: "sorted_wrt (<) (map f xs) \<Longrightarrow> distinct (xs::'a list)"
  for f :: "'a \<Rightarrow> 'k::linorder"
  by (induction xs) auto

section \<open>The search on a well-formed list\<close>

lemma takeWhile_all_fail: "(\<forall>x\<in>set xs. \<not> P x) \<Longrightarrow> takeWhile P xs = []"
  by (cases xs) auto

lemma advance_seg:
  "seg H i (Some c) (c # as) None \<Longrightarrow>
   advance H k i c = Some (last (c # takeWhile (\<lambda>a. ky H a < k) as))"
proof (induction as arbitrary: c)
  case Nil
  then show ?case
    by (subst advance.simps) (auto split: option.splits)
next
  case (Cons a as)
  from Cons.prems obtain r where r: "get_next H c i = Some (Some a)" "seg H i (Some a) (a # as) None"
    by (auto split: option.splits)
  from r(2) have "i < lvl H a" by (auto simp: get_next_Some_iff[symmetric] split: option.splits)
  then have ka: "get_key H a = Some (ky H a)" by (simp add: get_key_lvl)
  show ?case
  proof (cases "ky H a < k")
    case True
    with Cons.IH[OF r(2)] r(1) ka show ?thesis
      by (subst advance.simps) simp
  next
    case False
    with r(1) ka show ?thesis
      by (subst advance.simps) simp
  qed
qed

lemma level_split:
  assumes "sorted_wrt (<) (map (ky H) ns)"
  shows "h # filter (\<lambda>a. i < lvl H a) ns = lower H k h ns i @ upper H k ns i"
proof -
  have "filter (\<lambda>a. i < lvl H a) ns =
        filter (\<lambda>a. i < lvl H a) (filter (\<lambda>a. ky H a < k) ns @ filter (\<lambda>a. \<not> ky H a < k) ns)"
    using sorted_wrt_filter_split[OF assms, of k] by simp
  then show ?thesis
    by (simp add: lower_def upper_def conj_commute)
qed

lemma below_mono: "j \<le> i \<Longrightarrow> set (lower H k h ns i) \<subseteq> set (lower H k h ns j)"
  by (auto simp: lower_def)

lemma pred_in_below: "pred H k h ns i \<in> set (lower H k h ns i)"
  unfolding pred_def by (rule last_in_set) (simp add: lower_def)

lemma advance_level:
  assumes sorted: "sorted_wrt (<) (map (ky H) ns)"
    and seg: "seg H i (Some h) (h # filter (\<lambda>a. i < lvl H a) ns) None"
    and c: "c \<in> set (lower H k h ns i)"
  shows "advance H k i c = Some (pred H k h ns i)"
proof -
  from c obtain A B where AB: "lower H k h ns i = A @ c # B"
    by (auto simp: in_set_conv_decomp)
  have full: "h # filter (\<lambda>a. i < lvl H a) ns = A @ (c # B @ upper H k ns i)"
    using level_split[OF sorted, of h i k] AB by simp
  from seg have "seg H i (Some h) (A @ (c # B @ upper H k ns i)) None"
    unfolding full .
  then obtain r where "seg H i r (c # B @ upper H k ns i) None"
    unfolding seg_append by blast
  then have s: "seg H i (Some c) (c # B @ upper H k ns i) None" by auto
  have B: "\<forall>b\<in>set B. ky H b < k"
  proof
    fix b assume "b \<in> set B"
    then have "b \<in> set (lower H k h ns i)" "b \<in> set (tl (lower H k h ns i))"
      using AB by (cases A; auto)+
    then show "ky H b < k" by (auto simp: lower_def)
  qed
  have "takeWhile (\<lambda>a. ky H a < k) (B @ upper H k ns i) = B"
    using B by (simp add: takeWhile_append2 takeWhile_all_fail upper_def)
  with advance_seg[OF s, of k] have "advance H k i c = Some (last (c # B))" by simp
  moreover have "last (c # B) = last (lower H k h ns i)" unfolding AB by simp
  ultimately show ?thesis by (simp add: pred_def)
qed

lemma find_preds_levels:
  assumes sorted: "sorted_wrt (<) (map (ky H) ns)"
    and seg: "\<And>i. i < n \<Longrightarrow> seg H i (Some h) (h # filter (\<lambda>a. i < lvl H a) ns) None"
    and c: "\<And>j. j < n \<Longrightarrow> c \<in> set (lower H k h ns j)"
    and len: "n \<le> length upd"
  shows "find_preds n H k c upd =
         Some (if n = 0 then c else pred H k h ns 0,
               map (\<lambda>j. if j < n then Some (pred H k h ns j) else upd ! j) [0..<length upd])"
  using seg c len
proof (induction n arbitrary: c upd)
  case 0
  then show ?case by (simp add: map_nth)
next
  case (Suc i)
  have adv: "advance H k i c = Some (pred H k h ns i)"
    by (rule advance_level[OF sorted]) (use Suc.prems in auto)
  have "find_preds i H k (pred H k h ns i) (upd[i := Some (pred H k h ns i)]) =
        Some (if i = 0 then pred H k h ns i else pred H k h ns 0,
              map (\<lambda>j. if j < i then Some (pred H k h ns j) else upd[i := Some (pred H k h ns i)] ! j)
                [0..<length (upd[i := Some (pred H k h ns i)])])"
  proof (rule Suc.IH)
    fix j assume "j < i"
    then show "seg H j (Some h) (h # filter (\<lambda>a. j < lvl H a) ns) None"
      using Suc.prems(1) by simp
    show "pred H k h ns i \<in> set (lower H k h ns j)"
      using pred_in_below[of H k h ns i] below_mono[of j i H k h ns] \<open>j < i\<close> by auto
  next
    show "i \<le> length (upd[i := Some (pred H k h ns i)])" using Suc.prems(3) by simp
  qed
  moreover have "map (\<lambda>j. if j < i then Some (pred H k h ns j) else upd[i := Some (pred H k h ns i)] ! j)
                [0..<length (upd[i := Some (pred H k h ns i)])] =
        map (\<lambda>j. if j < Suc i then Some (pred H k h ns j) else upd ! j) [0..<length upd]"
    using Suc.prems(3) by (auto simp: nth_list_update less_Suc_eq)
  ultimately show ?case using adv Suc.prems(3) by auto
qed

lemma descend_find_preds:
  "find_preds n H k c upd = Some (cur, upd') \<Longrightarrow> descend n H k c = Some cur"
  by (induction n arbitrary: c upd) (auto split: option.splits if_splits)

lemma seg_last: "seg H i p (as @ [a]) q \<Longrightarrow> get_next H a i = Some q"
  by (auto simp: seg_append split: option.splits)

lemma seg_start: "seg H i r bs None \<Longrightarrow> r = (case bs of [] \<Rightarrow> None | b # _ \<Rightarrow> Some b)"
  by (cases bs) auto

lemma below_snoc: "\<exists>A. lower H k h ns i = A @ [pred H k h ns i]"
proof -
  have "lower H k h ns i \<noteq> []" by (simp add: lower_def)
  then have "lower H k h ns i = butlast (lower H k h ns i) @ [last (lower H k h ns i)]"
    by simp
  then show ?thesis unfolding pred_def by blast
qed

lemma next_of_pred:
  assumes sorted: "sorted_wrt (<) (map (ky H) ns)"
    and seg: "seg H i (Some h) (h # filter (\<lambda>a. i < lvl H a) ns) None"
  shows "get_next H (pred H k h ns i) i =
         Some (case upper H k ns i of [] \<Rightarrow> None | c # _ \<Rightarrow> Some c)"
    and "seg H i (case upper H k ns i of [] \<Rightarrow> None | c # _ \<Rightarrow> Some c) (upper H k ns i) None"
proof -
  obtain A where A: "lower H k h ns i = A @ [pred H k h ns i]"
    using below_snoc by blast
  from seg have "seg H i (Some h) (lower H k h ns i @ upper H k ns i) None"
    unfolding level_split[OF sorted, of h i k] .
  then obtain r where r: "seg H i (Some h) (A @ [pred H k h ns i]) r" "seg H i r (upper H k ns i) None"
    unfolding seg_append A by blast
  from seg_start[OF r(2)] have req: "r = (case upper H k ns i of [] \<Rightarrow> None | c # _ \<Rightarrow> Some c)" .
  from seg_last[OF r(1)] req
  show "get_next H (pred H k h ns i) i = Some (case upper H k ns i of [] \<Rightarrow> None | c # _ \<Rightarrow> Some c)"
    by simp
  from r(2) req
  show "seg H i (case upper H k ns i of [] \<Rightarrow> None | c # _ \<Rightarrow> Some c) (upper H k ns i) None"
    by simp
qed

lemma sorted_first_not_below:
  "sorted_wrt (<) (map f xs) \<Longrightarrow>
   (case filter (\<lambda>a. \<not> f a < k) xs of [] \<Rightarrow> False | c # _ \<Rightarrow> f c = k) \<longleftrightarrow> (k::'k::linorder) \<in> f ` set xs"
  by (induction xs) (auto split: list.splits)

text \<open>What the search of \<open>insert\<close>, \<open>erase\<close> and \<open>contains\<close> finds in a well-formed list.\<close>

lemma above_0: "wfh H h ns \<Longrightarrow> upper H k ns 0 = filter (\<lambda>a. \<not> ky H a < k) ns"
  unfolding upper_def by (rule filter_cong) (auto dest: wfh_lvl_pos)

lemma find_preds_wf:
  assumes wf: "wfh H h ns"
  shows "find_preds (lvl H h) H k h (replicate (lvl H h) None) =
         Some (pred H k h ns 0, map (\<lambda>j. Some (pred H k h ns j)) [0..<lvl H h])"
proof -
  have "find_preds (lvl H h) H k h (replicate (lvl H h) None) =
         Some (if lvl H h = 0 then h else pred H k h ns 0,
               map (\<lambda>j. if j < lvl H h then Some (pred H k h ns j) else replicate (lvl H h) None ! j)
                 [0..<length (replicate (lvl H h) None :: addr option list)])"
    by (rule find_preds_levels[OF wfh_sorted[OF wf]]) (use wfh_seg[OF wf] in \<open>auto simp: lower_def\<close>)
  then show ?thesis using wfh_lvl_head[OF wf] by (auto cong: map_cong)
qed

lemma candidate_wf:
  assumes wf: "wfh H h ns"
  shows "candidate_is H k (pred H k h ns 0) =
         Some (case filter (\<lambda>a. \<not> ky H a < k) ns of [] \<Rightarrow> None | c # _ \<Rightarrow> Some c,
               k \<in> set (map (ky H) ns))"
proof -
  note sorted = wfh_sorted[OF wf]
  have g: "get_next H (pred H k h ns 0) 0 =
        Some (case filter (\<lambda>a. \<not> ky H a < k) ns of [] \<Rightarrow> None | c # _ \<Rightarrow> Some c)"
    using next_of_pred(1)[OF sorted, of 0 h k] wfh_seg[OF wf, of 0] wfh_lvl_head[OF wf]
    unfolding above_0[OF wf] by simp
  show ?thesis
  proof (cases "filter (\<lambda>a. \<not> ky H a < k) ns")
    case Nil
    with sorted_first_not_below[OF sorted, of k] g show ?thesis
      by (simp add: candidate_is_def)
  next
    case (Cons c cs)
    then have "c \<in> set ns" by (metis filter_is_subset list.set_intros(1) subsetD)
    then have "get_key H c = Some (ky H c)" using wfh_lvl_pos[OF wf] by (simp add: get_key_lvl)
    with Cons sorted_first_not_below[OF sorted, of k] g show ?thesis
      by (simp add: candidate_is_def)
  qed
qed

lemma wf_nodes_head: "wf_nodes H s ns \<Longrightarrow> \<exists>h. head s = Some h \<and> nat (maxLevel s) = lvl H h \<and> wfh H h ns"
  by (auto simp: wf_nodes_def split: option.splits)

lemma contains_wf:
  assumes "wf_nodes H s ns"
  shows "contains H s k = Some (k \<in> set (map (ky H) ns))"
proof -
  from wf_nodes_head[OF assms] obtain h where h: "head s = Some h" "nat (maxLevel s) = lvl H h" "wfh H h ns"
    by blast
  from find_preds_wf[OF h(3), of k]
  have "descend (lvl H h) H k h = Some (pred H k h ns 0)"
    by (rule descend_find_preds)
  with candidate_wf[OF h(3), of k] h show ?thesis
    by (simp add: contains_def)
qed

section \<open>Heap updates\<close>

lemma wfh_cong:
  assumes "\<And>a. a \<in> insert h (set ns) \<Longrightarrow> cells H' a = cells H a"
  shows "wfh H' h ns = wfh H h ns"
proof -
  have l: "\<And>a. a \<in> insert h (set ns) \<Longrightarrow> lvl H' a = lvl H a"
    and k: "\<And>a. a \<in> insert h (set ns) \<Longrightarrow> ky H' a = ky H a"
    and g: "\<And>a i. a \<in> insert h (set ns) \<Longrightarrow> get_next H' a i = get_next H a i"
    using assms by (auto simp: lvl_def ky_def get_next_def)
  have m: "map (ky H') ns = map (ky H) ns" using k by (auto cong: map_cong)
  have f: "\<And>i. filter (\<lambda>a. i < lvl H' a) ns = filter (\<lambda>a. i < lvl H a) ns"
    using l by (auto cong: filter_cong)
  have s: "\<And>i. seg H' i (Some h) (h # filter (\<lambda>a. i < lvl H a) ns) None =
                seg H i (Some h) (h # filter (\<lambda>a. i < lvl H a) ns) None"
    by (rule seg_cong) (use g in auto)
  show ?thesis
    unfolding wfh_def m f s using l by auto
qed

lemma set_next_ok:
  assumes "i < lvl H a"
  obtains H' where "set_next a i v H = Some H'" "lim H' = lim H"
    "\<And>b. lvl H' b = lvl H b" "\<And>b. ky H' b = ky H b"
    "\<And>b j. get_next H' b j = (if b = a \<and> j = i then Some v else get_next H b j)"
    "\<And>b. b \<noteq> a \<Longrightarrow> cells H' b = cells H b"
    "\<And>b. cells H' b = None \<longleftrightarrow> cells H b = None"
proof -
  from assms obtain n where n: "cells H a = Some n" "i < length (nxt n)"
    by (auto simp: lvl_def split: option.splits)
  let ?H = "H\<lparr>cells := (cells H)(a \<mapsto> n\<lparr>nxt := (nxt n)[i := v]\<rparr>)\<rparr>"
  show thesis
  proof (rule that[of ?H])
    show "set_next a i v H = Some ?H" using n by (simp add: set_next_def)
    show "\<And>b j. get_next ?H b j = (if b = a \<and> j = i then Some v else get_next H b j)"
      using n by (auto simp: get_next_def nth_list_update)
  qed (use n in \<open>auto simp: lvl_def ky_def\<close>)
qed

lemma resize_next_ok:
  assumes "0 < lvl H h" "lvl H h \<le> n"
  obtains H' where "resize_next h n H = Some H'" "lim H' = lim H"
    "\<And>b. lvl H' b = (if b = h then n else lvl H b)" "\<And>b. ky H' b = ky H b"
    "\<And>b j. get_next H' b j = (if b = h \<and> lvl H h \<le> j \<and> j < n then Some None else get_next H b j)"
    "\<And>b. b \<noteq> h \<Longrightarrow> cells H' b = cells H b"
proof -
  from assms obtain nd where n: "cells H h = Some nd" "length (nxt nd) \<le> n" "lvl H h = length (nxt nd)"
    by (auto simp: lvl_def split: option.splits)
  let ?H = "H\<lparr>cells := (cells H)(h \<mapsto> nd\<lparr>nxt := resize n None (nxt nd)\<rparr>)\<rparr>"
  show thesis
  proof (rule that[of ?H])
    show "resize_next h n H = Some ?H" using n by (simp add: resize_next_def)
    show "\<And>b j. get_next ?H b j = (if b = h \<and> lvl H h \<le> j \<and> j < n then Some None else get_next H b j)"
      using n by (auto simp: get_next_def resize_def nth_append)
  qed (use n in \<open>auto simp: lvl_def ky_def resize_def\<close>)
qed

lemma new_Node_ok:
  assumes "heap_ok H" "new_Node k level H = (a, H')"
  shows "a = lim H" "lvl H a = 0" "lim H' = Suc (lim H)" "heap_ok H'"
    "\<And>b. lvl H' b = (if b = a then nat level else lvl H b)"
    "\<And>b. ky H' b = (if b = a then k else ky H b)"
    "\<And>b j. get_next H' b j = (if b = a then (if j < nat level then Some None else None) else get_next H b j)"
    "\<And>b. b \<noteq> a \<Longrightarrow> cells H' b = cells H b"
  using assms by (auto simp: new_Node_def heap_ok_def lvl_def ky_def get_next_def)

lemma delete_Node_ok:
  assumes "0 < lvl H a"
  obtains H' where "delete_Node a H = Some H'" "lim H' = lim H"
    "\<And>b. lvl H' b = (if b = a then 0 else lvl H b)"
    "\<And>b. b \<noteq> a \<Longrightarrow> cells H' b = cells H b"
    "heap_ok H \<Longrightarrow> heap_ok H'" "cells H' a = None"
proof -
  from assms obtain n where n: "cells H a = Some n" by (auto simp: lvl_def split: option.splits)
  show thesis
    by (rule that[of "H\<lparr>cells := (cells H)(a := None)\<rparr>"])
       (use n in \<open>auto simp: delete_Node_def lvl_def heap_ok_def\<close>)
qed

lemma pop_back_next_ok:
  assumes "0 < lvl H h"
  obtains H' where "pop_back_next h H = Some H'" "lim H' = lim H"
    "\<And>b. lvl H' b = (if b = h then lvl H h - 1 else lvl H b)" "\<And>b. ky H' b = ky H b"
    "\<And>b j. get_next H' b j = (if b = h \<and> j = lvl H h - 1 then None else get_next H b j)"
    "\<And>b. b \<noteq> h \<Longrightarrow> cells H' b = cells H b"
proof -
  from assms obtain nd where n: "cells H h = Some nd" "nxt nd \<noteq> []" "lvl H h = length (nxt nd)"
    by (auto simp: lvl_def split: option.splits)
  let ?H = "H\<lparr>cells := (cells H)(h \<mapsto> nd\<lparr>nxt := butlast (nxt nd)\<rparr>)\<rparr>"
  show thesis
  proof (rule that[of ?H])
    show "pop_back_next h H = Some ?H" using n by (simp add: pop_back_next_def)
    show "\<And>b j. get_next ?H b j = (if b = h \<and> j = lvl H h - 1 then None else get_next H b j)"
      using n by (auto simp: get_next_def nth_butlast)
  qed (use n in \<open>auto simp: lvl_def ky_def\<close>)
qed

section \<open>Correctness of insertion\<close>

lemma splice_step_ok:
  assumes "j < length upd" "upd ! j = Some u" "u \<noteq> nw" "j < lvl H u" "j < lvl H nw"
  obtains H' where "splice_step nw upd j H = Some H'" "lim H' = lim H"
    "\<And>b. lvl H' b = lvl H b" "\<And>b. ky H' b = ky H b"
    "\<And>b i. get_next H' b i =
       (if i = j then (if b = nw then get_next H u j else if b = u then Some (Some nw) else get_next H b i)
        else get_next H b i)"
    "\<And>b. b \<noteq> nw \<Longrightarrow> b \<noteq> u \<Longrightarrow> cells H' b = cells H b"
    "\<And>b. cells H' b = None \<longleftrightarrow> cells H b = None"
proof -
  from assms(4) obtain x where x: "get_next H u j = Some x"
    using get_next_Some_iff[of H u j] by blast
  from assms(5) obtain H1 where H1: "set_next nw j x H = Some H1" "lim H1 = lim H"
    "\<And>b. lvl H1 b = lvl H b" "\<And>b. ky H1 b = ky H b"
    "\<And>b i. get_next H1 b i = (if b = nw \<and> i = j then Some x else get_next H b i)"
    "\<And>b. b \<noteq> nw \<Longrightarrow> cells H1 b = cells H b"
    "\<And>b. cells H1 b = None \<longleftrightarrow> cells H b = None"
    by (rule set_next_ok[of j H nw x]) blast
  from assms(4) H1(3) have "j < lvl H1 u" by simp
  then obtain H2 where H2: "set_next u j (Some nw) H1 = Some H2" "lim H2 = lim H1"
    "\<And>b. lvl H2 b = lvl H1 b" "\<And>b. ky H2 b = ky H1 b"
    "\<And>b i. get_next H2 b i = (if b = u \<and> i = j then Some (Some nw) else get_next H1 b i)"
    "\<And>b. b \<noteq> u \<Longrightarrow> cells H2 b = cells H1 b"
    "\<And>b. cells H2 b = None \<longleftrightarrow> cells H1 b = None"
    by (rule set_next_ok[of j H1 u "Some nw"]) blast
  show thesis
  proof (rule that[of H2])
    show "splice_step nw upd j H = Some H2"
      using assms(1,2) x H1(1) H2(1) by (simp add: splice_step_def)
    show "\<And>b i. get_next H2 b i =
       (if i = j then (if b = nw then get_next H u j else if b = u then Some (Some nw) else get_next H b i)
        else get_next H b i)"
      using H1(5) H2(5) x assms(3) by auto
    show "\<And>b. b \<noteq> nw \<Longrightarrow> b \<noteq> u \<Longrightarrow> cells H2 b = cells H b"
      using H1(6) H2(6) by simp
    show "\<And>b. cells H2 b = None \<longleftrightarrow> cells H b = None"
      using H1(7) H2(7) by simp
  qed (simp_all add: H1(2,3,4) H2(2,3,4))
qed

lemma splice_loop_ok:
  assumes "distinct js"
    and "\<And>j. j \<in> set js \<Longrightarrow> j < length upd \<and> upd ! j = Some (u j) \<and> u j \<noteq> nw \<and> j < lvl H (u j) \<and> j < lvl H nw"
  shows "\<exists>H'. for_each (splice_step nw upd) js H = Some H' \<and> lim H' = lim H \<and>
      (\<forall>b. lvl H' b = lvl H b \<and> ky H' b = ky H b) \<and>
      (\<forall>b i. get_next H' b i =
         (if i \<in> set js
          then (if b = nw then get_next H (u i) i else if b = u i then Some (Some nw) else get_next H b i)
          else get_next H b i)) \<and>
      (\<forall>b. b \<noteq> nw \<longrightarrow> b \<notin> u ` set js \<longrightarrow> cells H' b = cells H b) \<and>
      (\<forall>b. cells H' b = None \<longleftrightarrow> cells H b = None)"
  using assms
proof (induction js arbitrary: H)
  case Nil
  then show ?case by simp
next
  case (Cons j js)
  from Cons.prems(2)[of j]
  have pj: "j < length upd" "upd ! j = Some (u j)" "u j \<noteq> nw" "j < lvl H (u j)" "j < lvl H nw"
    by auto
  from pj obtain H1 where H1: "splice_step nw upd j H = Some H1" "lim H1 = lim H"
    "\<And>b. lvl H1 b = lvl H b" "\<And>b. ky H1 b = ky H b"
    "\<And>b i. get_next H1 b i =
       (if i = j then (if b = nw then get_next H (u j) j else if b = u j then Some (Some nw) else get_next H b i)
        else get_next H b i)"
    "\<And>b. b \<noteq> nw \<Longrightarrow> b \<noteq> u j \<Longrightarrow> cells H1 b = cells H b"
    "\<And>b. cells H1 b = None \<longleftrightarrow> cells H b = None"
    by (rule splice_step_ok[of j upd "u j" nw H]) blast
  have "\<exists>H'. for_each (splice_step nw upd) js H1 = Some H' \<and> lim H' = lim H1 \<and>
      (\<forall>b. lvl H' b = lvl H1 b \<and> ky H' b = ky H1 b) \<and>
      (\<forall>b i. get_next H' b i =
         (if i \<in> set js
          then (if b = nw then get_next H1 (u i) i else if b = u i then Some (Some nw) else get_next H1 b i)
          else get_next H1 b i)) \<and>
      (\<forall>b. b \<noteq> nw \<longrightarrow> b \<notin> u ` set js \<longrightarrow> cells H' b = cells H1 b) \<and>
      (\<forall>b. cells H' b = None \<longleftrightarrow> cells H1 b = None)"
  proof (rule Cons.IH)
    show "distinct js" using Cons.prems(1) by simp
    fix i assume "i \<in> set js"
    then show "i < length upd \<and> upd ! i = Some (u i) \<and> u i \<noteq> nw \<and> i < lvl H1 (u i) \<and> i < lvl H1 nw"
      using Cons.prems(2)[of i] H1(3) by simp
  qed
  then obtain H' where H': "for_each (splice_step nw upd) js H1 = Some H'" "lim H' = lim H1"
      "\<And>b. lvl H' b = lvl H1 b" "\<And>b. ky H' b = ky H1 b"
      "\<And>b i. get_next H' b i =
         (if i \<in> set js
          then (if b = nw then get_next H1 (u i) i else if b = u i then Some (Some nw) else get_next H1 b i)
          else get_next H1 b i)"
      "\<And>b. b \<noteq> nw \<Longrightarrow> b \<notin> u ` set js \<Longrightarrow> cells H' b = cells H1 b"
      "\<And>b. cells H' b = None \<longleftrightarrow> cells H1 b = None"
    by blast
  have jn: "j \<notin> set js" using Cons.prems(1) by simp
  have g: "\<And>b i. get_next H' b i =
         (if i \<in> set (j # js)
          then (if b = nw then get_next H (u i) i else if b = u i then Some (Some nw) else get_next H b i)
          else get_next H b i)"
    unfolding H'(5) H1(5) using jn by auto
  have c: "\<And>b. b \<noteq> nw \<Longrightarrow> b \<notin> u ` set (j # js) \<Longrightarrow> cells H' b = cells H b"
    using H'(6) H1(6) by simp
  have d: "\<And>b. cells H' b = None \<longleftrightarrow> cells H b = None"
    using H'(7) H1(7) by simp
  have e: "for_each (splice_step nw upd) (j # js) H = Some H'"
    using H1(1) H'(1) by simp
  show ?case
    using e H'(2) H1(2) H'(3) H1(3) H'(4) H1(4) g c d
    by (intro exI[of _ H'] conjI allI impI) simp_all
qed

lemma below_subset: "set (lower H k h ns i) \<subseteq> insert h (set ns)"
  by (auto simp: lower_def)

lemma above_subset: "set (upper H k ns i) \<subseteq> set ns"
  by (auto simp: upper_def)

lemma wfh_distinct_level:
  assumes "wfh H h ns"
  shows "distinct (lower H k h ns i @ upper H k ns i)"
proof -
  have "distinct ns" using wfh_sorted[OF assms] by (rule sorted_wrt_map_distinct)
  then have "distinct (h # filter (\<lambda>a. i < lvl H a) ns)"
    using wfh_head_notin[OF assms] by simp
  then show ?thesis unfolding level_split[OF wfh_sorted[OF assms], of h i k] .
qed

lemma sorted_insert_key:
  assumes "sorted_wrt (<) (map f xs)" "k \<notin> f ` set xs"
  shows "sorted_wrt (<) (map f (filter (\<lambda>a. f a < k) xs) @ (k::'k::linorder) # map f (filter (\<lambda>a. \<not> f a < k) xs))"
proof -
  have 1: "sorted_wrt (<) (map f (filter (\<lambda>a. f a < k) xs))"
    and 2: "sorted_wrt (<) (map f (filter (\<lambda>a. \<not> f a < k) xs))"
    using assms(1) by (auto simp: sorted_wrt_map intro: sorted_wrt_filter)
  have 3: "\<And>y. y \<in> set xs \<Longrightarrow> \<not> f y < k \<Longrightarrow> k < f y"
    using assms(2) by force
  show ?thesis
    unfolding sorted_wrt_append using 1 2 3 by (auto intro: less_trans)
qed

lemma wfh_insert:
  assumes wf: "wfh H h ns"
    and nw: "nw \<notin> insert h (set ns)" "lvl H nw = nl" "0 < nl" "nl \<le> lvl H h" "ky H nw = k"
    and fresh: "k \<notin> ky H ` set ns"
    and l: "\<And>b. lvl H' b = lvl H b" and kk: "\<And>b. ky H' b = ky H b"
    and g: "\<And>b i. get_next H' b i =
         (if i < nl
          then (if b = nw then get_next H (pred H k h ns i) i
                else if b = pred H k h ns i then Some (Some nw) else get_next H b i)
          else get_next H b i)"
  shows "wfh H' h (filter (\<lambda>a. ky H a < k) ns @ nw # filter (\<lambda>a. \<not> ky H a < k) ns)"
proof -
  let ?ns = "filter (\<lambda>a. ky H a < k) ns @ nw # filter (\<lambda>a. \<not> ky H a < k) ns"
  note sorted = wfh_sorted[OF wf]
  have lf: "lvl H' = lvl H" and kf: "ky H' = ky H" using l kk by auto
  have c1: "0 < lvl H' h" using wfh_lvl_head[OF wf] l by simp
  have c2: "h \<notin> set ?ns" using wfh_head_notin[OF wf] nw(1) by auto
  have c3: "\<forall>a\<in>set ?ns. 0 < lvl H' a \<and> lvl H' a \<le> lvl H' h"
    using wfh_lvl_pos[OF wf] wfh_lvl_le[OF wf] nw(2,3,4) l by auto
  have c4: "sorted_wrt (<) (map (ky H') ?ns)"
    unfolding kf using sorted_insert_key[OF sorted fresh] nw(5) by simp
  have c5: "seg H' i (Some h) (h # filter (\<lambda>a. i < lvl H' a) ?ns) None" if i: "i < lvl H' h" for i
  proof (cases "i < nl")
    case True
    have full: "h # filter (\<lambda>a. i < lvl H' a) ?ns = lower H k h ns i @ nw # upper H k ns i"
      unfolding lf using True nw(2) by (simp add: lower_def upper_def conj_commute)
    obtain A where A: "lower H k h ns i = A @ [pred H k h ns i]"
      using below_snoc by blast
    let ?p = "pred H k h ns i"
    from wfh_seg[OF wf, of i] i l
    have old: "seg H i (Some h) ((A @ [?p]) @ upper H k ns i) None"
      unfolding level_split[OF sorted, of h i k] A by simp
    then obtain r where r: "seg H i (Some h) (A @ [?p]) r" "seg H i r (upper H k ns i) None"
      unfolding seg_append[of H i "Some h" "A @ [?p]"] by blast
    from r(1) have sA: "seg H i (Some h) A (Some ?p)" and gp: "get_next H ?p i = Some r"
      by (auto simp: seg_append split: option.splits)
    have dist: "distinct (A @ [?p] @ upper H k ns i)"
      using wfh_distinct_level[OF wf, of k i] unfolding A by simp
    have sub: "set A \<subseteq> insert h (set ns)" "?p \<in> insert h (set ns)"
      using below_subset[of H k h ns i] unfolding A by auto
    have pn: "?p \<noteq> nw" using sub(2) nw(1) by auto
    have 1: "seg H' i (Some h) A (Some ?p)"
    proof -
      have "seg H' i (Some h) A (Some ?p) = seg H i (Some h) A (Some ?p)"
      proof (rule seg_cong)
        fix a assume "a \<in> set A"
        then have "a \<noteq> ?p" "a \<noteq> nw" using dist sub(1) nw(1) by auto
        then show "get_next H' a i = get_next H a i" by (simp add: g)
      qed
      with sA show ?thesis by simp
    qed
    have 2: "seg H' i (Some ?p) [?p, nw] r"
      using True pn gp by (simp add: g)
    have 3: "seg H' i r (upper H k ns i) None"
    proof -
      have "seg H' i r (upper H k ns i) None = seg H i r (upper H k ns i) None"
      proof (rule seg_cong)
        fix a assume "a \<in> set (upper H k ns i)"
        then have "a \<noteq> ?p" "a \<noteq> nw" using dist above_subset[of H k ns i] nw(1) by auto
        then show "get_next H' a i = get_next H a i" by (simp add: g)
      qed
      with r(2) show ?thesis by simp
    qed
    have "seg H' i (Some h) (A @ [?p, nw] @ upper H k ns i) None"
      unfolding seg_append using 1 2 3 by blast
    then show ?thesis unfolding full A by simp
  next
    case False
    have "filter (\<lambda>a. i < lvl H' a) ?ns =
          filter (\<lambda>a. i < lvl H a) (filter (\<lambda>a. ky H a < k) ns @ filter (\<lambda>a. \<not> ky H a < k) ns)"
      unfolding lf using False nw(2) by simp
    also have "\<dots> = filter (\<lambda>a. i < lvl H a) ns"
      using sorted_wrt_filter_split[OF sorted, of k] by simp
    finally have full: "filter (\<lambda>a. i < lvl H' a) ?ns = filter (\<lambda>a. i < lvl H a) ns" .
    have "seg H' i (Some h) (h # filter (\<lambda>a. i < lvl H a) ns) None =
          seg H i (Some h) (h # filter (\<lambda>a. i < lvl H a) ns) None"
      by (rule seg_cong) (use False in \<open>simp add: g\<close>)
    with wfh_seg[OF wf, of i] i l show ?thesis unfolding full by simp
  qed
  show ?thesis
    unfolding wfh_def using c1 c2 c3 c4 c5 by blast
qed

subsection \<open>The drawn level\<close>

lemma randomLevel_loop_unfold1:
  "fst (draw g) < probability s \<and> level < maxAllowedLevel s \<and> level < maxLevel s + 1 \<Longrightarrow>
   randomLevel_loop draw s level g = randomLevel_loop draw s (level + 1) (snd (draw g))"
  apply (subst randomLevel_loop.simps)
  apply (simp only: if_True simp_thms)
  done

lemma randomLevel_loop_unfold2:
  "\<not> (fst (draw g) < probability s \<and> level < maxAllowedLevel s \<and> level < maxLevel s + 1) \<Longrightarrow>
   randomLevel_loop draw s level g = (level, snd (draw g))"
  apply (subst randomLevel_loop.simps)
  apply (simp only: if_False simp_thms)
  done

lemma randomLevel_loop_lower: "level \<le> fst (randomLevel_loop draw s level g)"
proof (induction draw s level g rule: randomLevel_loop.induct)
  case (1 draw s level g)
  show ?case
  proof (cases "fst (draw g) < probability s \<and> level < maxAllowedLevel s \<and> level < maxLevel s + 1")
    case True
    have "level + 1 \<le> fst (randomLevel_loop draw s (level + 1) (snd (draw g)))"
      by (rule 1[OF True])
    then show ?thesis
      unfolding randomLevel_loop_unfold1[of draw g s level, OF True] by linarith
  next
    case False
    show ?thesis unfolding randomLevel_loop_unfold2[of draw g s level, OF False] by simp
  qed
qed

lemma randomLevel_loop_upper:
  "fst (randomLevel_loop draw s level g) \<le> max level (min (maxAllowedLevel s) (maxLevel s + 1))"
proof (induction draw s level g rule: randomLevel_loop.induct)
  case (1 draw s level g)
  show ?case
  proof (cases "fst (draw g) < probability s \<and> level < maxAllowedLevel s \<and> level < maxLevel s + 1")
    case True
    have "fst (randomLevel_loop draw s (level + 1) (snd (draw g)))
          \<le> max (level + 1) (min (maxAllowedLevel s) (maxLevel s + 1))"
      by (rule 1[OF True])
    moreover have "level + 1 \<le> min (maxAllowedLevel s) (maxLevel s + 1)" using True by simp
    ultimately show ?thesis
      unfolding randomLevel_loop_unfold1[of draw g s level, OF True] by linarith
  next
    case False
    show ?thesis unfolding randomLevel_loop_unfold2[of draw g s level, OF False] by simp
  qed
qed

lemma randomLevel_state:
  "snd (randomLevel draw s) = s\<lparr>rng := snd (randomLevel_loop draw s 1 (rng s))\<rparr>"
  "fst (randomLevel draw s) = fst (randomLevel_loop draw s 1 (rng s))"
  by (auto simp: randomLevel_def split: prod.splits)

lemma randomLevel_pos: "1 \<le> fst (randomLevel draw s)"
  using randomLevel_loop_lower[of 1 draw s "rng s"] by (simp add: randomLevel_state)

subsection \<open>Growing the head\<close>

lemma heap_ok_alloc:
  assumes "heap_ok H" "0 < lvl H a"
  shows "a < lim H"
proof (rule ccontr)
  assume "\<not> a < lim H"
  then have "lim H \<le> a" by simp
  with assms(1) have "cells H a = None" unfolding heap_ok_def by blast
  with assms(2) show False by (simp add: lvl_def)
qed

lemma below_cong:
  "(\<And>a. a \<in> set ns \<Longrightarrow> lvl H' a = lvl H a \<and> ky H' a = ky H a) \<Longrightarrow>
   lower H' k h ns i = lower H k h ns i"
  unfolding lower_def by (auto cong: filter_cong)

lemma pred_cong:
  assumes "\<And>a. a \<in> set ns \<Longrightarrow> lvl H' a = lvl H a \<and> ky H' a = ky H a"
  shows "pred H' k h ns i = pred H k h ns i"
  unfolding pred_def using below_cong[of ns H' H k h i, OF assms] by simp

lemma pred_above_head:
  assumes "wfh H h ns" "lvl H h \<le> i"
  shows "pred H k h ns i = h"
proof -
  have "\<not> (i < lvl H a \<and> ky H a < k)" if "a \<in> set ns" for a
    using wfh_lvl_le[OF assms(1) that] assms(2) by simp
  then have "filter (\<lambda>a. i < lvl H a \<and> ky H a < k) ns = []"
    unfolding filter_empty_conv by blast
  then show ?thesis by (simp add: pred_def lower_def)
qed

lemma wfh_grow:
  assumes wf: "wfh H h ns" and n: "lvl H h \<le> n"
    and l: "\<And>b. lvl H' b = (if b = h then n else lvl H b)" and kk: "\<And>b. ky H' b = ky H b"
    and g: "\<And>b j. get_next H' b j = (if b = h \<and> lvl H h \<le> j \<and> j < n then Some None else get_next H b j)"
  shows "wfh H' h ns"
proof -
  have hn: "h \<notin> set ns" by (rule wfh_head_notin[OF wf])
  have ln: "\<And>a. a \<in> set ns \<Longrightarrow> lvl H' a = lvl H a" using hn l by auto
  have f: "\<And>i. filter (\<lambda>a. i < lvl H' a) ns = filter (\<lambda>a. i < lvl H a) ns"
    using ln by (auto cong: filter_cong)
  have kf: "ky H' = ky H" using kk by auto
  have c5: "seg H' i (Some h) (h # filter (\<lambda>a. i < lvl H' a) ns) None" if "i < n" for i
  proof (cases "i < lvl H h")
    case True
    have "seg H' i (Some h) (h # filter (\<lambda>a. i < lvl H a) ns) None =
          seg H i (Some h) (h # filter (\<lambda>a. i < lvl H a) ns) None"
      by (rule seg_cong) (use True in \<open>simp add: g\<close>)
    with wfh_seg[OF wf True] show ?thesis unfolding f by simp
  next
    case False
    have "\<not> i < lvl H a" if "a \<in> set ns" for a
      using wfh_lvl_le[OF wf that] False by simp
    then have "filter (\<lambda>a. i < lvl H a) ns = []"
      unfolding filter_empty_conv by blast
    then show ?thesis unfolding f using False that by (simp add: g)
  qed
  have lh: "lvl H' h = n" using l by simp
  have c1: "0 < lvl H' h" using wfh_lvl_head[OF wf] n lh by simp
  have c3: "\<forall>a\<in>set ns. 0 < lvl H' a \<and> lvl H' a \<le> lvl H' h"
  proof
    fix a assume a: "a \<in> set ns"
    from wfh_lvl_le[OF wf a] n have "lvl H a \<le> n" by simp
    with wfh_lvl_pos[OF wf a] ln[OF a] lh show "0 < lvl H' a \<and> lvl H' a \<le> lvl H' h" by simp
  qed
  have c4: "sorted_wrt (<) (map (ky H') ns)" unfolding kf by (rule wfh_sorted[OF wf])
  have c5': "\<forall>i<lvl H' h. seg H' i (Some h) (h # filter (\<lambda>a. i < lvl H' a) ns) None"
    using c5 lh by simp
  show ?thesis
    unfolding wfh_def using c1 hn c3 c4 c5' by blast
qed

lemma fold_list_update:
  "b \<le> length xs \<Longrightarrow>
   fold (\<lambda>i u. u[i := v]) [a..<b] xs = map (\<lambda>j. if a \<le> j \<and> j < b then v else xs ! j) [0..<length xs]"
proof (induction b)
  case 0
  then show ?case by (simp add: map_nth)
next
  case (Suc b)
  show ?case
  proof (cases "a \<le> b")
    case True
    with Suc show ?thesis
      by (auto simp: nth_list_update less_Suc_eq intro!: nth_equalityI)
  next
    case False
    then show ?thesis by (auto simp: map_nth intro!: nth_equalityI)
  qed
qed

lemma grow_ok:
  assumes wf: "wfh H h ns" and ml: "maxLevel s = int (lvl H h)" and nl: "1 \<le> newLevel"
    and ok: "heap_ok H"
  obtains H' s' upd where
    "grow h newLevel H s (map (\<lambda>j. Some (pred H k h ns j)) [0..<lvl H h]) = Some (H', s', upd)"
    "wfh H' h ns" "heap_ok H'" "lim H' = lim H"
    "s' = s\<lparr>maxLevel := max (maxLevel s) newLevel\<rparr>"
    "lvl H' h = nat (max (maxLevel s) newLevel)"
    "\<And>b. b \<noteq> h \<Longrightarrow> cells H' b = cells H b"
    "\<And>j. j < nat newLevel \<Longrightarrow> j < length upd \<and> upd ! j = Some (pred H' k h ns j)"
proof (cases "newLevel > maxLevel s")
  case True
  then have le: "lvl H h \<le> nat newLevel" using ml by simp
  from wfh_lvl_head[OF wf] le obtain H' where H': "resize_next h (nat newLevel) H = Some H'" "lim H' = lim H"
    "\<And>b. lvl H' b = (if b = h then nat newLevel else lvl H b)" "\<And>b. ky H' b = ky H b"
    "\<And>b j. get_next H' b j = (if b = h \<and> lvl H h \<le> j \<and> j < nat newLevel then Some None else get_next H b j)"
    "\<And>b. b \<noteq> h \<Longrightarrow> cells H' b = cells H b"
    by (rule resize_next_ok[of H h "nat newLevel"]) blast
  have wf': "wfh H' h ns" by (rule wfh_grow[OF wf le H'(3,4,5)])
  have hl: "h < lim H" using heap_ok_alloc[OF ok wfh_lvl_head[OF wf]] .
  have ok': "heap_ok H'" using ok H'(2) H'(6) hl by (auto simp: heap_ok_def)
  let ?upd = "fold (\<lambda>i u. u[i := Some h]) [nat (maxLevel s)..<nat newLevel]
                (resize (nat newLevel) None (map (\<lambda>j. Some (pred H k h ns j)) [0..<lvl H h]))"
  have len: "length (resize (nat newLevel) None (map (\<lambda>j. Some (pred H k h ns j)) [0..<lvl H h])) = nat newLevel"
    using le by (simp add: resize_def)
  have pc: "\<And>j. pred H' k h ns j = pred H k h ns j"
    by (rule pred_cong) (use H'(3,4) wfh_head_notin[OF wf] in auto)
  have upd: "j < length ?upd \<and> ?upd ! j = Some (pred H' k h ns j)" if "j < nat newLevel" for j
  proof -
    have "?upd = map (\<lambda>j. if nat (maxLevel s) \<le> j \<and> j < nat newLevel then Some h
                     else resize (nat newLevel) None (map (\<lambda>j. Some (pred H k h ns j)) [0..<lvl H h]) ! j)
                  [0..<nat newLevel]"
      using fold_list_update[of "nat newLevel" _ "Some h" "nat (maxLevel s)"] len by simp
    moreover have "pred H k h ns j = h" if "lvl H h \<le> j"
      using pred_above_head[OF wf that] .
    ultimately show ?thesis
      using that ml le by (auto simp: pc resize_def nth_append)
  qed
  have 1: "grow h newLevel H s (map (\<lambda>j. Some (pred H k h ns j)) [0..<lvl H h]) =
          Some (H', s\<lparr>maxLevel := newLevel\<rparr>, ?upd)"
    using True H'(1) by (simp add: grow_def)
  have 2: "s\<lparr>maxLevel := newLevel\<rparr> = s\<lparr>maxLevel := max (maxLevel s) newLevel\<rparr>"
    using True by (simp add: max_def)
  have 3: "lvl H' h = nat (max (maxLevel s) newLevel)" using True H'(3) by (simp add: max_def)
  show ?thesis
    by (rule that[OF 1 wf' ok' H'(2) 2 3 H'(6) upd])
next
  case False
  have 1: "grow h newLevel H s (map (\<lambda>j. Some (pred H k h ns j)) [0..<lvl H h]) =
          Some (H, s, map (\<lambda>j. Some (pred H k h ns j)) [0..<lvl H h])"
    using False by (simp add: grow_def)
  have 2: "s = s\<lparr>maxLevel := max (maxLevel s) newLevel\<rparr>" using False by (simp add: max_def)
  have 3: "lvl H h = nat (max (maxLevel s) newLevel)" using False ml by (simp add: max_def)
  have 4: "\<And>j. j < nat newLevel \<Longrightarrow>
        j < length (map (\<lambda>j. Some (pred H k h ns j)) [0..<lvl H h]) \<and>
        map (\<lambda>j. Some (pred H k h ns j)) [0..<lvl H h] ! j = Some (pred H k h ns j)"
    using False ml by auto
  show ?thesis
    by (rule that[OF 1 wf ok refl 2 3 refl 4])
qed

lemma pred_lvl:
  assumes "j < lvl H h"
  shows "j < lvl H (pred H k h ns j)"
proof -
  have "pred H k h ns j \<in> set (lower H k h ns j)" by (rule pred_in_below)
  then show ?thesis using assms by (auto simp: lower_def)
qed

lemma pred_in: "pred H k h ns j \<in> insert h (set ns)"
  using pred_in_below[of H k h ns j] below_subset[of H k h ns j] by blast

lemma insert_key_present:
  assumes wf: "wf_nodes H s ns" and k: "k \<in> ky H ` set ns"
  shows "insert_key draw k (H, s) = Some (H, s)"
proof -
  from wf_nodes_head[OF wf] obtain h where h: "head s = Some h" "nat (maxLevel s) = lvl H h" "wfh H h ns"
    by blast
  show ?thesis
    using h(1,2) find_preds_wf[OF h(3), of k] candidate_wf[OF h(3), of k] k
    by (simp add: insert_key_def)
qed

lemma insert_key_fresh:
  assumes ok: "heap_ok H" and wf: "wf_nodes H s ns" and k: "k \<notin> ky H ` set ns"
    and hd: "head s = Some h"
  shows "\<exists>H'. insert_key draw k (H, s) =
             Some (H', (snd (randomLevel draw s))\<lparr>maxLevel := max (maxLevel s) (fst (randomLevel draw s))\<rparr>) \<and>
          heap_ok H' \<and> lim H' = Suc (lim H) \<and>
          wf_nodes H' ((snd (randomLevel draw s))\<lparr>maxLevel := max (maxLevel s) (fst (randomLevel draw s))\<rparr>)
            (filter (\<lambda>a. ky H a < k) ns @ lim H # filter (\<lambda>a. \<not> ky H a < k) ns) \<and>
          ky H' (lim H) = k \<and> lvl H' (lim H) = nat (fst (randomLevel draw s)) \<and>
          (\<forall>a\<in>set ns. ky H' a = ky H a \<and> lvl H' a = lvl H a) \<and>
          (\<forall>b. b \<notin> insert h (set ns) \<longrightarrow> b \<noteq> lim H \<longrightarrow> cells H' b = cells H b)"
proof -
  from wf_nodes_head[OF wf] hd have h: "nat (maxLevel s) = lvl H h" "wfh H h ns"
    by auto
  obtain nl s1 where rl: "randomLevel draw s = (nl, s1)" by (cases "randomLevel draw s")
  have s1: "s1 = s\<lparr>rng := snd (randomLevel_loop draw s 1 (rng s))\<rparr>"
    using randomLevel_state(1)[of draw s] rl by simp
  have nl: "1 \<le> nl" using randomLevel_pos[of draw s] rl by simp
  have ml1: "maxLevel s1 = int (lvl H h)" using h(1) s1 wfh_lvl_head[OF h(2)] by simp
  obtain H2 s2 upd where g:
    "grow h nl H s1 (map (\<lambda>j. Some (pred H k h ns j)) [0..<lvl H h]) = Some (H2, s2, upd)"
    "wfh H2 h ns" "heap_ok H2" "lim H2 = lim H"
    "s2 = s1\<lparr>maxLevel := max (maxLevel s1) nl\<rparr>"
    "lvl H2 h = nat (max (maxLevel s1) nl)"
    "\<And>b. b \<noteq> h \<Longrightarrow> cells H2 b = cells H b"
    "\<And>j. j < nat nl \<Longrightarrow> j < length upd \<and> upd ! j = Some (pred H2 k h ns j)"
    by (rule grow_ok[OF h(2) ml1 nl ok, of k]) blast
  let ?nw = "lim H"
  obtain H3 where nn: "new_Node k nl H2 = (?nw, H3)"
    by (simp add: new_Node_def g(4))
  note N = new_Node_ok[OF g(3) nn]
  have nw_notin: "?nw \<notin> insert h (set ns)"
  proof
    assume "?nw \<in> insert h (set ns)"
    then have "0 < lvl H2 ?nw" using wfh_lvl_head[OF g(2)] wfh_lvl_pos[OF g(2)] by blast
    with N(2) show False by simp
  qed
  have wf3: "wfh H3 h ns"
  proof -
    have "wfh H3 h ns = wfh H2 h ns"
    proof (rule wfh_cong)
      fix a assume "a \<in> insert h (set ns)"
      then have "a \<noteq> ?nw" using nw_notin by auto
      then show "cells H3 a = cells H2 a" by (rule N(8))
    qed
    with g(2) show ?thesis by simp
  qed
  have same3: "\<And>a. a \<in> set ns \<Longrightarrow> lvl H3 a = lvl H2 a \<and> ky H3 a = ky H2 a"
    using N(5,6) nw_notin by auto
  have p3: "\<And>j. pred H3 k h ns j = pred H2 k h ns j"
    by (rule pred_cong) (use same3 in auto)
  have same2: "lvl H2 a = lvl H a \<and> ky H2 a = ky H a" if "a \<in> set ns" for a
  proof -
    from that wfh_head_notin[OF h(2)] have "a \<noteq> h" by auto
    then have "cells H2 a = cells H a" by (rule g(7))
    then show ?thesis by (simp add: lvl_def ky_def)
  qed
  have lh3: "lvl H3 h = nat (max (maxLevel s1) nl)" using N(5) nw_notin g(6) by auto
  have pre: "j < length upd \<and> upd ! j = Some (pred H3 k h ns j) \<and> pred H3 k h ns j \<noteq> ?nw \<and>
             j < lvl H3 (pred H3 k h ns j) \<and> j < lvl H3 ?nw" if "j \<in> set [0..<nat nl]" for j
  proof -
    from that have j: "j < nat nl" by simp
    have "j < lvl H3 h" using j lh3 by simp
    then have "j < lvl H3 (pred H3 k h ns j)" by (rule pred_lvl)
    moreover have "pred H3 k h ns j \<noteq> ?nw" using pred_in[of H3 k h ns j] nw_notin by auto
    moreover have "j < lvl H3 ?nw" using N(5) j by simp
    ultimately show ?thesis using g(8)[OF j] p3 by simp
  qed
  have "\<exists>H'. for_each (splice_step ?nw upd) [0..<nat nl] H3 = Some H' \<and> lim H' = lim H3 \<and>
      (\<forall>b. lvl H' b = lvl H3 b \<and> ky H' b = ky H3 b) \<and>
      (\<forall>b i. get_next H' b i =
         (if i \<in> set [0..<nat nl]
          then (if b = ?nw then get_next H3 (pred H3 k h ns i) i
                else if b = pred H3 k h ns i then Some (Some ?nw) else get_next H3 b i)
          else get_next H3 b i)) \<and>
      (\<forall>b. b \<noteq> ?nw \<longrightarrow> b \<notin> pred H3 k h ns ` set [0..<nat nl] \<longrightarrow> cells H' b = cells H3 b) \<and>
      (\<forall>b. cells H' b = None \<longleftrightarrow> cells H3 b = None)"
    by (rule splice_loop_ok) (use pre in auto)
  then obtain H4 where H4: "for_each (splice_step ?nw upd) [0..<nat nl] H3 = Some H4" "lim H4 = lim H3"
      "\<And>b. lvl H4 b = lvl H3 b" "\<And>b. ky H4 b = ky H3 b"
      "\<And>b i. get_next H4 b i =
         (if i \<in> set [0..<nat nl]
          then (if b = ?nw then get_next H3 (pred H3 k h ns i) i
                else if b = pred H3 k h ns i then Some (Some ?nw) else get_next H3 b i)
          else get_next H3 b i)"
      "\<And>b. b \<noteq> ?nw \<Longrightarrow> b \<notin> pred H3 k h ns ` set [0..<nat nl] \<Longrightarrow> cells H4 b = cells H3 b"
      "\<And>b. cells H4 b = None \<longleftrightarrow> cells H3 b = None"
    by blast
  have fresh3: "k \<notin> ky H3 ` set ns" using k same3 same2 by auto
  have wf4: "wfh H4 h (filter (\<lambda>a. ky H3 a < k) ns @ ?nw # filter (\<lambda>a. \<not> ky H3 a < k) ns)"
  proof (rule wfh_insert[OF wf3 nw_notin _ _ _ _ fresh3 H4(3) H4(4), of "nat nl"])
    show "lvl H3 ?nw = nat nl" using N(5) by simp
    show "0 < nat nl" using nl by simp
    show "nat nl \<le> lvl H3 h" using lh3 by simp
    show "ky H3 ?nw = k" using N(6) by simp
    show "\<And>b i. get_next H4 b i =
         (if i < nat nl
          then (if b = ?nw then get_next H3 (pred H3 k h ns i) i
                else if b = pred H3 k h ns i then Some (Some ?nw) else get_next H3 b i)
          else get_next H3 b i)"
      using H4(5) by simp
  qed
  have fl: "filter (\<lambda>a. ky H3 a < k) ns = filter (\<lambda>a. ky H a < k) ns"
       "filter (\<lambda>a. \<not> ky H3 a < k) ns = filter (\<lambda>a. \<not> ky H a < k) ns"
    using same3 same2 by (auto cong: filter_cong)
  let ?s' = "(snd (randomLevel draw s))\<lparr>maxLevel := max (maxLevel s) (fst (randomLevel draw s))\<rparr>"
  have s2: "s2 = ?s'" using g(5) rl s1 by simp
  have ins: "insert_key draw k (H, s) = Some (H4, ?s')"
    using hd h(1) find_preds_wf[OF h(2), of k] candidate_wf[OF h(2), of k] k rl g(1) nn H4(1) s2
    by (simp add: insert_key_def)
  have ok4: "heap_ok H4"
    using N(4) H4(2) H4(7) unfolding heap_ok_def by simp
  have wfn: "wf_nodes H4 ?s' (filter (\<lambda>a. ky H a < k) ns @ ?nw # filter (\<lambda>a. \<not> ky H a < k) ns)"
  proof -
    have "0 \<le> max (maxLevel s) nl" using nl by simp
    then have "max (maxLevel s) nl = int (lvl H4 h)" using lh3 H4(3) s1 by simp
    then show ?thesis
      using wf4 hd rl s1 unfolding wf_nodes_def fl by simp
  qed
  have fr: "cells H4 b = cells H b" if "b \<notin> insert h (set ns)" "b \<noteq> ?nw" for b
  proof -
    have "b \<notin> pred H3 k h ns ` set [0..<nat nl]" using that(1) pred_in[of H3 k h ns] by auto
    then have "cells H4 b = cells H3 b" using H4(6) that(2) by simp
    also have "\<dots> = cells H2 b" using N(8) that(2) by simp
    also have "\<dots> = cells H b" using g(7) that(1) by simp
    finally show ?thesis .
  qed
  show ?thesis
    using ins ok4 H4(2) N(3) g(4) wfn H4(3,4) N(5,6) same3 same2 nw_notin fr rl
    by (intro exI[of _ H4] conjI ballI allI impI) auto
qed

section \<open>Correctness of removal\<close>

lemma unlink_step_ok:
  assumes "j < length upd" "upd ! j = Some u" "j < lvl H u"
    "get_next H u j = Some (Some cur) \<longrightarrow> j < lvl H cur"
  obtains H' where "unlink_step cur upd j H = Some H'" "lim H' = lim H"
    "\<And>b. lvl H' b = lvl H b" "\<And>b. ky H' b = ky H b"
    "\<And>b i. get_next H' b i =
       (if i = j \<and> b = u \<and> get_next H u j = Some (Some cur) then get_next H cur j
        else get_next H b i)"
    "\<And>b. b \<noteq> u \<Longrightarrow> cells H' b = cells H b"
    "\<And>b. cells H' b = None \<longleftrightarrow> cells H b = None"
proof -
  from assms(3) obtain x where x: "get_next H u j = Some x"
    using get_next_Some_iff[of H u j] by blast
  show thesis
  proof (cases "x = Some cur")
    case True
    with assms(4) x have "j < lvl H cur" by simp
    then obtain y where y: "get_next H cur j = Some y"
      using get_next_Some_iff[of H cur j] by blast
    from assms(3) obtain H1 where H1: "set_next u j y H = Some H1" "lim H1 = lim H"
      "\<And>b. lvl H1 b = lvl H b" "\<And>b. ky H1 b = ky H b"
      "\<And>b i. get_next H1 b i = (if b = u \<and> i = j then Some y else get_next H b i)"
      "\<And>b. b \<noteq> u \<Longrightarrow> cells H1 b = cells H b"
      "\<And>b. cells H1 b = None \<longleftrightarrow> cells H b = None"
      by (rule set_next_ok[of j H u y]) blast
    have 1: "unlink_step cur upd j H = Some H1"
      using assms(1,2) x True y H1(1) by (simp add: unlink_step_def)
    have 2: "\<And>b i. get_next H1 b i =
       (if i = j \<and> b = u \<and> get_next H u j = Some (Some cur) then get_next H cur j
        else get_next H b i)"
      using H1(5) x True y by auto
    show thesis by (rule that[OF 1 H1(2,3,4) 2 H1(6,7)])
  next
    case False
    have 1: "unlink_step cur upd j H = Some H"
      using assms(1,2) x False by (simp add: unlink_step_def)
    have 2: "\<And>b i. get_next H b i =
       (if i = j \<and> b = u \<and> get_next H u j = Some (Some cur) then get_next H cur j
        else get_next H b i)"
      using x False by auto
    show thesis by (rule that[OF 1 refl refl refl 2 refl refl])
  qed
qed

lemma unlink_loop_ok:
  assumes "distinct js"
    and "\<And>j. j \<in> set js \<Longrightarrow> j < length upd \<and> upd ! j = Some (u j) \<and> j < lvl H (u j) \<and>
                (get_next H (u j) j = Some (Some cur) \<longrightarrow> j < lvl H cur)"
  shows "\<exists>H'. for_each (unlink_step cur upd) js H = Some H' \<and> lim H' = lim H \<and>
      (\<forall>b. lvl H' b = lvl H b \<and> ky H' b = ky H b) \<and>
      (\<forall>b i. get_next H' b i =
         (if i \<in> set js \<and> b = u i \<and> get_next H (u i) i = Some (Some cur) then get_next H cur i
          else get_next H b i)) \<and>
      (\<forall>b. b \<notin> u ` set js \<longrightarrow> cells H' b = cells H b) \<and>
      (\<forall>b. cells H' b = None \<longleftrightarrow> cells H b = None)"
  using assms
proof (induction js arbitrary: H)
  case Nil
  then show ?case by simp
next
  case (Cons j js)
  from Cons.prems(2)[of j]
  have pj: "j < length upd" "upd ! j = Some (u j)" "j < lvl H (u j)"
    "get_next H (u j) j = Some (Some cur) \<longrightarrow> j < lvl H cur"
    by auto
  from pj obtain H1 where H1: "unlink_step cur upd j H = Some H1" "lim H1 = lim H"
    "\<And>b. lvl H1 b = lvl H b" "\<And>b. ky H1 b = ky H b"
    "\<And>b i. get_next H1 b i =
       (if i = j \<and> b = u j \<and> get_next H (u j) j = Some (Some cur) then get_next H cur j
        else get_next H b i)"
    "\<And>b. b \<noteq> u j \<Longrightarrow> cells H1 b = cells H b"
    "\<And>b. cells H1 b = None \<longleftrightarrow> cells H b = None"
    by (rule unlink_step_ok[of j upd "u j" H cur]) blast
  have jn: "j \<notin> set js" using Cons.prems(1) by simp
  have "\<exists>H'. for_each (unlink_step cur upd) js H1 = Some H' \<and> lim H' = lim H1 \<and>
      (\<forall>b. lvl H' b = lvl H1 b \<and> ky H' b = ky H1 b) \<and>
      (\<forall>b i. get_next H' b i =
         (if i \<in> set js \<and> b = u i \<and> get_next H1 (u i) i = Some (Some cur) then get_next H1 cur i
          else get_next H1 b i)) \<and>
      (\<forall>b. b \<notin> u ` set js \<longrightarrow> cells H' b = cells H1 b) \<and>
      (\<forall>b. cells H' b = None \<longleftrightarrow> cells H1 b = None)"
  proof (rule Cons.IH)
    show "distinct js" using Cons.prems(1) by simp
    fix i assume i: "i \<in> set js"
    then have "i \<noteq> j" using jn by auto
    then show "i < length upd \<and> upd ! i = Some (u i) \<and> i < lvl H1 (u i) \<and>
               (get_next H1 (u i) i = Some (Some cur) \<longrightarrow> i < lvl H1 cur)"
      using Cons.prems(2)[of i] i H1(3) H1(5) by simp
  qed
  then obtain H' where H': "for_each (unlink_step cur upd) js H1 = Some H'" "lim H' = lim H1"
      "\<And>b. lvl H' b = lvl H1 b" "\<And>b. ky H' b = ky H1 b"
      "\<And>b i. get_next H' b i =
         (if i \<in> set js \<and> b = u i \<and> get_next H1 (u i) i = Some (Some cur) then get_next H1 cur i
          else get_next H1 b i)"
      "\<And>b. b \<notin> u ` set js \<Longrightarrow> cells H' b = cells H1 b"
      "\<And>b. cells H' b = None \<longleftrightarrow> cells H1 b = None"
    by blast
  have g: "\<And>b i. get_next H' b i =
         (if i \<in> set (j # js) \<and> b = u i \<and> get_next H (u i) i = Some (Some cur) then get_next H cur i
          else get_next H b i)"
    unfolding H'(5) H1(5) using jn by auto
  have c: "\<And>b. b \<notin> u ` set (j # js) \<Longrightarrow> cells H' b = cells H b"
    using H'(6) H1(6) by simp
  have d: "\<And>b. cells H' b = None \<longleftrightarrow> cells H b = None"
    using H'(7) H1(7) by simp
  have e: "for_each (unlink_step cur upd) (j # js) H = Some H'"
    using H1(1) H'(1) by simp
  show ?case
    using e H'(2) H1(2) H'(3) H1(3) H'(4) H1(4) g c d
    by (intro exI[of _ H'] conjI allI impI) simp_all
qed

lemma sorted_filter_from:
  "sorted_wrt (<) (map f xs) \<Longrightarrow> c \<in> set xs \<Longrightarrow>
   filter (\<lambda>a. \<not> f a < f c) xs = c # filter (\<lambda>a. (f c :: 'k::linorder) < f a) xs"
proof (induction xs)
  case Nil
  then show ?case by simp
next
  case (Cons x xs)
  show ?case
  proof (cases "x = c")
    case True
    from Cons.prems(1) True have "\<forall>y\<in>set xs. f c < f y" by simp
    then have "filter (\<lambda>a. \<not> f a < f c) xs = xs" "filter (\<lambda>a. f c < f a) xs = xs"
      unfolding filter_id_conv by auto
    with True show ?thesis by simp
  next
    case False
    with Cons.prems(2) have c: "c \<in> set xs" by simp
    with Cons.prems(1) have "f x < f c" by simp
    with Cons.IH[OF _ c] Cons.prems(1) show ?thesis by simp
  qed
qed

lemma upper_at_key:
  assumes wf: "wfh H h ns" and cur: "cur \<in> set ns"
  shows "upper H (ky H cur) ns i = (if i < lvl H cur then [cur] else []) @ beyond H (ky H cur) ns i"
proof -
  have "upper H (ky H cur) ns i = filter (\<lambda>a. i < lvl H a) (filter (\<lambda>a. \<not> ky H a < ky H cur) ns)"
    by (simp add: upper_def conj_commute)
  also have "filter (\<lambda>a. \<not> ky H a < ky H cur) ns = cur # filter (\<lambda>a. ky H cur < ky H a) ns"
    by (rule sorted_filter_from[OF wfh_sorted[OF wf] cur])
  finally show ?thesis by (simp add: beyond_def conj_commute)
qed

lemma cur_notin_beyond: "cur \<notin> set (beyond H (ky H cur) ns i)"
  by (simp add: beyond_def)

lemma cur_notin_lower: "cur \<in> set ns \<Longrightarrow> wfh H h ns \<Longrightarrow> cur \<notin> set (lower H (ky H cur) h ns i)"
  using wfh_head_notin[of H h ns] by (auto simp: lower_def)

lemma next_pred_is_cur:
  assumes wf: "wfh H h ns" and cur: "cur \<in> set ns" and i: "i < lvl H h"
  shows "get_next H (pred H (ky H cur) h ns i) i = Some (Some cur) \<longleftrightarrow> i < lvl H cur"
proof -
  have g: "get_next H (pred H (ky H cur) h ns i) i =
        Some (case upper H (ky H cur) ns i of [] \<Rightarrow> None | c # _ \<Rightarrow> Some c)"
    by (rule next_of_pred(1)[OF wfh_sorted[OF wf] wfh_seg[OF wf i]])
  show ?thesis
  proof (cases "i < lvl H cur")
    case True
    then show ?thesis unfolding g upper_at_key[OF wf cur] by simp
  next
    case False
    have "(case beyond H (ky H cur) ns i of [] \<Rightarrow> None | c # _ \<Rightarrow> Some c) \<noteq> Some cur"
      using cur_notin_beyond[of cur H ns i] by (cases "beyond H (ky H cur) ns i") auto
    with False show ?thesis unfolding g upper_at_key[OF wf cur] by simp
  qed
qed

lemma wfh_erase:
  assumes wf: "wfh H h ns" and cur: "cur \<in> set ns"
    and l: "\<And>b. lvl H' b = (if b = cur then 0 else lvl H b)"
    and kk: "\<And>b. b \<noteq> cur \<Longrightarrow> ky H' b = ky H b"
    and g: "\<And>b i. b \<noteq> cur \<Longrightarrow> get_next H' b i =
         (if b = pred H (ky H cur) h ns i \<and> i < lvl H cur then get_next H cur i else get_next H b i)"
  shows "wfh H' h (filter (\<lambda>a. a \<noteq> cur) ns)"
proof -
  let ?k = "ky H cur"
  let ?ns = "filter (\<lambda>a. a \<noteq> cur) ns"
  note sorted = wfh_sorted[OF wf]
  have hc: "h \<noteq> cur" using wfh_head_notin[OF wf] cur by auto
  have c1: "0 < lvl H' h" using wfh_lvl_head[OF wf] l hc by simp
  have c2: "h \<notin> set ?ns" using wfh_head_notin[OF wf] by simp
  have c3: "\<forall>a\<in>set ?ns. 0 < lvl H' a \<and> lvl H' a \<le> lvl H' h"
    using wfh_lvl_pos[OF wf] wfh_lvl_le[OF wf] l hc by auto
  have m: "map (ky H') ?ns = map (ky H) ?ns" using kk by (auto cong: map_cong)
  have c4: "sorted_wrt (<) (map (ky H') ?ns)"
    unfolding m using sorted by (auto simp: sorted_wrt_map intro: sorted_wrt_filter)
  have c5: "seg H' i (Some h) (h # filter (\<lambda>a. i < lvl H' a) ?ns) None" if "i < lvl H' h" for i
  proof -
    from that l hc have i: "i < lvl H h" by simp
    have old: "h # filter (\<lambda>a. i < lvl H a) ns =
          lower H ?k h ns i @ (if i < lvl H cur then [cur] else []) @ beyond H ?k ns i"
      unfolding level_split[OF sorted, of h i ?k] upper_at_key[OF wf cur] ..
    have "filter (\<lambda>a. i < lvl H' a) ?ns = filter (\<lambda>a. a \<noteq> cur) (filter (\<lambda>a. i < lvl H a) ns)"
      unfolding filter_filter by (rule filter_cong) (auto simp: l)
    then have "h # filter (\<lambda>a. i < lvl H' a) ?ns = filter (\<lambda>a. a \<noteq> cur) (h # filter (\<lambda>a. i < lvl H a) ns)"
      using hc by simp
    also have "\<dots> = filter (\<lambda>a. a \<noteq> cur) (lower H ?k h ns i) @ filter (\<lambda>a. a \<noteq> cur) (beyond H ?k ns i)"
      unfolding old by simp
    also have "filter (\<lambda>a. a \<noteq> cur) (lower H ?k h ns i) = lower H ?k h ns i"
      unfolding filter_id_conv using cur_notin_lower[OF cur wf, of i] by auto
    also have "filter (\<lambda>a. a \<noteq> cur) (beyond H ?k ns i) = beyond H ?k ns i"
      unfolding filter_id_conv using cur_notin_beyond[of cur H ns i] by auto
    finally have new: "h # filter (\<lambda>a. i < lvl H' a) ?ns = lower H ?k h ns i @ beyond H ?k ns i" .
    obtain A where A: "lower H ?k h ns i = A @ [pred H ?k h ns i]"
      using below_snoc by blast
    let ?p = "pred H ?k h ns i"
    have dist: "distinct (A @ [?p] @ (if i < lvl H cur then [cur] else []) @ beyond H ?k ns i)"
      using wfh_distinct_level[OF wf, of ?k i] unfolding A upper_at_key[OF wf cur] by simp
    have pc: "?p \<noteq> cur" using cur_notin_lower[OF cur wf, of i] unfolding A by auto
    have Ac: "cur \<notin> set A" using cur_notin_lower[OF cur wf, of i] unfolding A by auto
    show ?thesis
    proof (cases "i < lvl H cur")
      case True
      from wfh_seg[OF wf i] have "seg H i (Some h) ((A @ [?p]) @ cur # beyond H ?k ns i) None"
        unfolding old A using True by simp
      then obtain r where r: "seg H i (Some h) (A @ [?p]) r" "seg H i r (cur # beyond H ?k ns i) None"
        unfolding seg_append[of H i "Some h" "A @ [?p]"] by blast
      from r(1) have sA: "seg H i (Some h) A (Some ?p)"
        by (auto simp: seg_append split: option.splits)
      from r(2) obtain q where q: "get_next H cur i = Some q" "seg H i q (beyond H ?k ns i) None"
        by (auto split: option.splits)
      have 1: "seg H' i (Some h) A (Some ?p)"
      proof -
        have "seg H' i (Some h) A (Some ?p) = seg H i (Some h) A (Some ?p)"
        proof (rule seg_cong)
          fix a assume "a \<in> set A"
          then have "a \<noteq> ?p" "a \<noteq> cur" using dist Ac by auto
          then show "get_next H' a i = get_next H a i" by (simp add: g)
        qed
        with sA show ?thesis by simp
      qed
      have 2: "seg H' i (Some ?p) [?p] q"
        using True pc q(1) by (simp add: g)
      have 3: "seg H' i q (beyond H ?k ns i) None"
      proof -
        have "seg H' i q (beyond H ?k ns i) None = seg H i q (beyond H ?k ns i) None"
        proof (rule seg_cong)
          fix a assume "a \<in> set (beyond H ?k ns i)"
          then have "a \<noteq> ?p" "a \<noteq> cur" using dist cur_notin_beyond[of cur H ns i] by auto
          then show "get_next H' a i = get_next H a i" by (simp add: g)
        qed
        with q(2) show ?thesis by simp
      qed
      have "seg H' i (Some h) (A @ [?p] @ beyond H ?k ns i) None"
        unfolding seg_append using 1 2 3 by blast
      then show ?thesis unfolding new A by simp
    next
      case False
      have "seg H' i (Some h) (lower H ?k h ns i @ beyond H ?k ns i) None =
            seg H i (Some h) (lower H ?k h ns i @ beyond H ?k ns i) None"
      proof (rule seg_cong)
        fix a assume "a \<in> set (lower H ?k h ns i @ beyond H ?k ns i)"
        then have "a \<noteq> cur"
          using cur_notin_lower[OF cur wf, of i] cur_notin_beyond[of cur H ns i] by auto
        then show "get_next H' a i = get_next H a i" using False by (simp add: g)
      qed
      moreover from wfh_seg[OF wf i] have "seg H i (Some h) (lower H ?k h ns i @ beyond H ?k ns i) None"
        unfolding old using False by simp
      ultimately show ?thesis unfolding new by simp
    qed
  qed
  show ?thesis
    unfolding wfh_def using c1 c2 c3 c4 c5 by blast
qed

lemma wfh_top_empty:
  assumes wf: "wfh H h ns" and top: "get_next H h (lvl H h - 1) = Some None"
  shows "\<forall>a\<in>set ns. lvl H a \<le> lvl H h - 1"
proof -
  let ?l = "lvl H h - 1"
  have l: "?l < lvl H h" using wfh_lvl_head[OF wf] by simp
  from wfh_seg[OF wf l] top have "filter (\<lambda>a. ?l < lvl H a) ns = []"
    by (cases "filter (\<lambda>a. ?l < lvl H a) ns") auto
  then show ?thesis unfolding filter_empty_conv by (simp add: not_less)
qed

lemma wfh_pop:
  assumes wf: "wfh H h ns" and big: "1 < lvl H h" and top: "get_next H h (lvl H h - 1) = Some None"
    and l: "\<And>b. lvl H' b = (if b = h then lvl H h - 1 else lvl H b)" and kk: "\<And>b. ky H' b = ky H b"
    and g: "\<And>b j. get_next H' b j = (if b = h \<and> j = lvl H h - 1 then None else get_next H b j)"
  shows "wfh H' h ns"
proof -
  have hn: "h \<notin> set ns" by (rule wfh_head_notin[OF wf])
  have ln: "\<And>a. a \<in> set ns \<Longrightarrow> lvl H' a = lvl H a" using hn l by auto
  have f: "\<And>i. filter (\<lambda>a. i < lvl H' a) ns = filter (\<lambda>a. i < lvl H a) ns"
    using ln by (auto cong: filter_cong)
  have kf: "ky H' = ky H" using kk by auto
  have lh: "lvl H' h = lvl H h - 1" using l by simp
  have c1: "0 < lvl H' h" using big lh by simp
  have c3: "\<forall>a\<in>set ns. 0 < lvl H' a \<and> lvl H' a \<le> lvl H' h"
    using wfh_top_empty[OF wf top] wfh_lvl_pos[OF wf] ln lh by simp
  have c4: "sorted_wrt (<) (map (ky H') ns)" unfolding kf by (rule wfh_sorted[OF wf])
  have c5: "seg H' i (Some h) (h # filter (\<lambda>a. i < lvl H' a) ns) None" if "i < lvl H' h" for i
  proof -
    from that lh have i: "i < lvl H h" "i \<noteq> lvl H h - 1" by auto
    have "seg H' i (Some h) (h # filter (\<lambda>a. i < lvl H a) ns) None =
          seg H i (Some h) (h # filter (\<lambda>a. i < lvl H a) ns) None"
      by (rule seg_cong) (use i(2) in \<open>simp add: g\<close>)
    with wfh_seg[OF wf i(1)] show ?thesis unfolding f by simp
  qed
  show ?thesis
    unfolding wfh_def using c1 hn c3 c4 c5 by blast
qed

lemma shrink_ok:
  assumes "wfh H h ns" "maxLevel s = int (lvl H h)" "head s = Some h" "heap_ok H"
  shows "\<exists>H' m. shrink H s = Some (H', s\<lparr>maxLevel := m\<rparr>) \<and> wfh H' h ns \<and> m = int (lvl H' h) \<and>
           heap_ok H' \<and> lim H' = lim H \<and> m \<le> maxLevel s \<and>
           (m = 1 \<or> (\<exists>a. get_next H' h (nat (m - 1)) = Some (Some a))) \<and>
           (\<forall>b. b \<noteq> h \<longrightarrow> cells H' b = cells H b) \<and> (\<forall>b. ky H' b = ky H b)"
  using assms
proof (induction "lvl H h" arbitrary: H s rule: less_induct)
  case less
  note wf = less.prems(1) and ml = less.prems(2) and hd = less.prems(3) and ok = less.prems(4)
  have s_eq: "s = s\<lparr>maxLevel := maxLevel s\<rparr>" by simp
  show ?case
  proof (cases "1 < maxLevel s")
    case False
    then have m1: "maxLevel s = 1" using ml wfh_lvl_head[OF wf] by simp
    have "shrink H s = Some (H, s\<lparr>maxLevel := maxLevel s\<rparr>)"
      using False by (subst shrink.simps) simp
    then show ?thesis using wf ml ok m1
      by (intro exI[of _ H] exI[of _ "maxLevel s"]) simp
  next
    case True
    then have big: "1 < lvl H h" using ml by simp
    have idx: "nat (maxLevel s - 1) = lvl H h - 1" using ml by simp
    have "lvl H h - 1 < lvl H h" using big by simp
    then obtain x where x: "get_next H h (lvl H h - 1) = Some x"
      using get_next_Some_iff[of H h "lvl H h - 1"] by blast
    show ?thesis
    proof (cases x)
      case (Some a)
      have "shrink H s = Some (H, s\<lparr>maxLevel := maxLevel s\<rparr>)"
        using True hd x Some idx by (subst shrink.simps) simp
      then show ?thesis using wf ml ok x Some idx
        by (intro exI[of _ H] exI[of _ "maxLevel s"]) simp
    next
      case None
      with x have top: "get_next H h (lvl H h - 1) = Some None" by simp
      from wfh_lvl_head[OF wf] obtain H1 where H1: "pop_back_next h H = Some H1" "lim H1 = lim H"
        "\<And>b. lvl H1 b = (if b = h then lvl H h - 1 else lvl H b)" "\<And>b. ky H1 b = ky H b"
        "\<And>b j. get_next H1 b j = (if b = h \<and> j = lvl H h - 1 then None else get_next H b j)"
        "\<And>b. b \<noteq> h \<Longrightarrow> cells H1 b = cells H b"
        by (rule pop_back_next_ok[of H h]) blast
      have wf1: "wfh H1 h ns" by (rule wfh_pop[OF wf big top H1(3,4,5)])
      have hl: "h < lim H" by (rule heap_ok_alloc[OF ok wfh_lvl_head[OF wf]])
      have ok1: "heap_ok H1" using ok H1(2) H1(6) hl by (auto simp: heap_ok_def)
      let ?s1 = "s\<lparr>maxLevel := maxLevel s - 1\<rparr>"
      have l1: "lvl H1 h < lvl H h" using H1(3) big by simp
      have ml1: "maxLevel ?s1 = int (lvl H1 h)" using H1(3) ml big by simp
      have hd1: "head ?s1 = Some h" using hd by simp
      from less.hyps[OF l1 wf1 ml1 hd1 ok1]
      obtain H' m where R: "shrink H1 ?s1 = Some (H', ?s1\<lparr>maxLevel := m\<rparr>)" "wfh H' h ns"
        "m = int (lvl H' h)" "heap_ok H'" "lim H' = lim H1" "m \<le> maxLevel ?s1"
        "m = 1 \<or> (\<exists>a. get_next H' h (nat (m - 1)) = Some (Some a))"
        "\<And>b. b \<noteq> h \<Longrightarrow> cells H' b = cells H1 b" "\<And>b. ky H' b = ky H1 b"
        by blast
      have "shrink H s = Some (H', s\<lparr>maxLevel := m\<rparr>)"
        using True hd top idx H1(1) R(1) by (subst shrink.simps) simp
      moreover have "m \<le> maxLevel s" using R(6) by simp
      moreover have "\<And>b. b \<noteq> h \<Longrightarrow> cells H' b = cells H b" using R(8) H1(6) by simp
      moreover have "\<And>b. ky H' b = ky H b" using R(9) H1(4) by simp
      moreover have "lim H' = lim H" using R(5) H1(2) by simp
      ultimately show ?thesis using R(2,3,4,7)
        by (intro exI[of _ H'] exI[of _ m]) simp
    qed
  qed
qed

lemma cells_eq_view:
  "cells H' b = cells H b \<Longrightarrow>
   lvl H' b = lvl H b \<and> ky H' b = ky H b \<and> get_next H' b i = get_next H b i"
  by (simp add: lvl_def ky_def get_next_def)

lemma erase_absent:
  assumes wf: "wf_nodes H s ns" and k: "k \<notin> ky H ` set ns"
  shows "erase k (H, s) = Some (False, H, s)"
proof -
  from wf_nodes_head[OF wf] obtain h where h: "head s = Some h" "nat (maxLevel s) = lvl H h" "wfh H h ns"
    by blast
  show ?thesis
    using h(1,2) find_preds_wf[OF h(3), of k] candidate_wf[OF h(3), of k] k
    by (simp add: erase_def split: option.splits)
qed

lemma erase_present:
  assumes ok: "heap_ok H" and wf: "wf_nodes H s ns" and cur: "cur \<in> set ns"
    and hd: "head s = Some h"
  shows "\<exists>H' m. erase (ky H cur) (H, s) = Some (True, H', s\<lparr>maxLevel := m\<rparr>) \<and>
          heap_ok H' \<and> lim H' = lim H \<and>
          wf_nodes H' (s\<lparr>maxLevel := m\<rparr>) (filter (\<lambda>a. a \<noteq> cur) ns) \<and>
          m \<le> maxLevel s \<and>
          (m = 1 \<or> (\<exists>a. get_next H' h (nat (m - 1)) = Some (Some a))) \<and>
          (\<forall>a\<in>set ns. a \<noteq> cur \<longrightarrow> ky H' a = ky H a \<and> lvl H' a = lvl H a) \<and>
          cells H' cur = None \<and>
          (\<forall>b. b \<notin> insert h (set ns) \<longrightarrow> cells H' b = cells H b)"
proof -
  let ?k = "ky H cur"
  from wf_nodes_head[OF wf] hd have h: "nat (maxLevel s) = lvl H h" "wfh H h ns"
    by auto
  note wfh = h(2)
  have ml: "maxLevel s = int (lvl H h)" using h(1) wfh_lvl_head[OF wfh] wf hd
    by (simp add: wf_nodes_def)
  have hc: "h \<noteq> cur" using wfh_head_notin[OF wfh] cur by auto
  have cand: "candidate_is H ?k (pred H ?k h ns 0) = Some (Some cur, True)"
    using candidate_wf[OF wfh, of ?k] sorted_filter_from[OF wfh_sorted[OF wfh] cur] cur by simp
  let ?upd = "map (\<lambda>j. Some (pred H ?k h ns j)) [0..<lvl H h]"
  have pre: "j < length ?upd \<and> ?upd ! j = Some (pred H ?k h ns j) \<and> j < lvl H (pred H ?k h ns j) \<and>
             (get_next H (pred H ?k h ns j) j = Some (Some cur) \<longrightarrow> j < lvl H cur)"
    if "j \<in> set [0..<lvl H h]" for j
  proof -
    from that have j: "j < lvl H h" by simp
    show ?thesis using j pred_lvl[OF j] next_pred_is_cur[OF wfh cur j] by simp
  qed
  have "\<exists>H'. for_each (unlink_step cur ?upd) [0..<lvl H h] H = Some H' \<and> lim H' = lim H \<and>
      (\<forall>b. lvl H' b = lvl H b \<and> ky H' b = ky H b) \<and>
      (\<forall>b i. get_next H' b i =
         (if i \<in> set [0..<lvl H h] \<and> b = pred H ?k h ns i \<and>
             get_next H (pred H ?k h ns i) i = Some (Some cur)
          then get_next H cur i else get_next H b i)) \<and>
      (\<forall>b. b \<notin> pred H ?k h ns ` set [0..<lvl H h] \<longrightarrow> cells H' b = cells H b) \<and>
      (\<forall>b. cells H' b = None \<longleftrightarrow> cells H b = None)"
    by (rule unlink_loop_ok) (use pre in auto)
  then obtain H1 where H1: "for_each (unlink_step cur ?upd) [0..<lvl H h] H = Some H1" "lim H1 = lim H"
      "\<And>b. lvl H1 b = lvl H b" "\<And>b. ky H1 b = ky H b"
      "\<And>b i. get_next H1 b i =
         (if i \<in> set [0..<lvl H h] \<and> b = pred H ?k h ns i \<and>
             get_next H (pred H ?k h ns i) i = Some (Some cur)
          then get_next H cur i else get_next H b i)"
      "\<And>b. b \<notin> pred H ?k h ns ` set [0..<lvl H h] \<Longrightarrow> cells H1 b = cells H b"
      "\<And>b. cells H1 b = None \<longleftrightarrow> cells H b = None"
    by blast
  have ok1: "heap_ok H1" using ok H1(2,7) by (simp add: heap_ok_def)
  have "0 < lvl H1 cur" using H1(3) wfh_lvl_pos[OF wfh cur] by simp
  then obtain H2 where H2: "delete_Node cur H1 = Some H2" "lim H2 = lim H1"
    "\<And>b. lvl H2 b = (if b = cur then 0 else lvl H1 b)"
    "\<And>b. b \<noteq> cur \<Longrightarrow> cells H2 b = cells H1 b"
    "heap_ok H1 \<Longrightarrow> heap_ok H2" "cells H2 cur = None"
    by (rule delete_Node_ok[of H1 cur]) blast
  have g1: "get_next H1 b i =
         (if b = pred H ?k h ns i \<and> i < lvl H cur then get_next H cur i else get_next H b i)" for b i
  proof (cases "i < lvl H h")
    case True
    then show ?thesis unfolding H1(5) using next_pred_is_cur[OF wfh cur True] by simp
  next
    case False
    then have "\<not> i < lvl H cur" using wfh_lvl_le[OF wfh cur] by simp
    with False show ?thesis unfolding H1(5) by simp
  qed
  have wf2: "wfh H2 h (filter (\<lambda>a. a \<noteq> cur) ns)"
  proof (rule wfh_erase[OF wfh cur])
    show "\<And>b. lvl H2 b = (if b = cur then 0 else lvl H b)" using H2(3) H1(3) by simp
    show "\<And>b. b \<noteq> cur \<Longrightarrow> ky H2 b = ky H b"
      using cells_eq_view[OF H2(4)] H1(4) by simp
    show "\<And>b i. b \<noteq> cur \<Longrightarrow> get_next H2 b i =
         (if b = pred H ?k h ns i \<and> i < lvl H cur then get_next H cur i else get_next H b i)"
      using cells_eq_view[OF H2(4)] g1 by simp
  qed
  have ml2: "maxLevel s = int (lvl H2 h)" using ml H2(3) H1(3) hc by simp
  from shrink_ok[OF wf2 ml2 hd H2(5)[OF ok1]]
  obtain H' m where R: "shrink H2 s = Some (H', s\<lparr>maxLevel := m\<rparr>)" "wfh H' h (filter (\<lambda>a. a \<noteq> cur) ns)"
    "m = int (lvl H' h)" "heap_ok H'" "lim H' = lim H2" "m \<le> maxLevel s"
    "m = 1 \<or> (\<exists>a. get_next H' h (nat (m - 1)) = Some (Some a))"
    "\<And>b. b \<noteq> h \<Longrightarrow> cells H' b = cells H2 b" "\<And>b. ky H' b = ky H2 b"
    by blast
  have er: "erase ?k (H, s) = Some (True, H', s\<lparr>maxLevel := m\<rparr>)"
    using hd h(1) find_preds_wf[OF wfh, of ?k] cand H1(1) H2(1) R(1)
    by (simp add: erase_def)
  have wfn: "wf_nodes H' (s\<lparr>maxLevel := m\<rparr>) (filter (\<lambda>a. a \<noteq> cur) ns)"
    using R(2,3) hd by (simp add: wf_nodes_def)
  have keep: "ky H' a = ky H a \<and> lvl H' a = lvl H a" if "a \<in> set ns" "a \<noteq> cur" for a
  proof -
    from that wfh_head_notin[OF wfh] have "a \<noteq> h" by auto
    then have "cells H' a = cells H2 a" by (rule R(8))
    also have "\<dots> = cells H1 a" using that(2) by (rule H2(4))
    finally have "ky H' a = ky H1 a \<and> lvl H' a = lvl H1 a" using cells_eq_view by blast
    then show ?thesis using H1(3,4) by simp
  qed
  have gone: "cells H' cur = None" using R(8)[of cur] hc H2(6) by simp
  have fr: "cells H' b = cells H b" if "b \<notin> insert h (set ns)" for b
  proof -
    have "b \<notin> pred H ?k h ns ` set [0..<lvl H h]" using that pred_in[of H ?k h ns] by auto
    then have "cells H1 b = cells H b" by (rule H1(6))
    moreover have "cells H2 b = cells H1 b" using that cur by (intro H2(4)) auto
    moreover have "cells H' b = cells H2 b" using that by (intro R(8)) auto
    ultimately show ?thesis by simp
  qed
  show ?thesis
    using er R(4) R(5) H2(2) H1(2) wfn R(6) R(7) keep gone fr
    by (intro exI[of _ H'] exI[of _ m] conjI ballI allI impI) auto
qed

section \<open>Iteration, dump and release on a well-formed list\<close>

lemma iterate_seg:
  "seg H 0 p as None \<Longrightarrow> iterate H (Iterator p) = Some (map (ky H) as)"
proof (induction as arbitrary: p)
  case Nil
  then show ?case by (subst iterate.simps) (simp add: end_it_def)
next
  case (Cons a as)
  from Cons.prems obtain r where r: "p = Some a" "get_next H a 0 = Some r" "seg H 0 r as None"
    by (auto split: option.splits)
  from r(2) have "0 < lvl H a" using get_next_Some_iff[of H a 0] by blast
  then have k: "get_key H a = Some (ky H a)" by (rule get_key_lvl)
  show ?case
    using Cons.IH[OF r(3)] r(1,2) k
    by (subst iterate.simps) (simp add: end_it_def deref_it_def incr_it_def)
qed

lemma wfh_level0: "wfh H h ns \<Longrightarrow> filter (\<lambda>a. 0 < lvl H a) ns = ns"
  unfolding filter_id_conv by (auto dest: wfh_lvl_pos)

lemma wfh_seg0:
  assumes "wfh H h ns"
  shows "\<exists>r. get_next H h 0 = Some r \<and> seg H 0 r ns None"
  using wfh_seg[OF assms wfh_lvl_head[OF assms]] unfolding wfh_level0[OF assms]
  by (auto split: option.splits)

lemma to_list_wf:
  assumes "wf_nodes H s ns"
  shows "to_list H s = Some (map (ky H) ns)"
proof -
  from wf_nodes_head[OF assms] obtain h where h: "head s = Some h" "wfh H h ns" by blast
  from wfh_seg0[OF h(2)] obtain r where r: "get_next H h 0 = Some r" "seg H 0 r ns None" by blast
  show ?thesis using h(1) r(1) iterate_seg[OF r(2)] by (simp add: to_list_def begin_it_def)
qed

lemma print_nodes_seg:
  "seg H i p as None \<Longrightarrow> (\<And>a. a \<in> set as \<Longrightarrow> 0 < lvl H a) \<Longrightarrow>
   print_nodes H i p os = Some (os @ key_items H as)"
proof (induction as arbitrary: p os)
  case Nil
  then show ?case by (subst print_nodes.simps) (simp add: key_items_def)
next
  case (Cons a as)
  from Cons.prems(1) obtain r where r: "p = Some a" "get_next H a i = Some r" "seg H i r as None"
    by (auto split: option.splits)
  have k: "get_key H a = Some (ky H a)" using Cons.prems(2)[of a] by (simp add: get_key_lvl)
  have "print_nodes H i r (os @ [OKey (ky H a), OChar CHR '' '']) =
        Some ((os @ [OKey (ky H a), OChar CHR '' '']) @ key_items H as)"
    by (rule Cons.IH[OF r(3)]) (use Cons.prems(2) in auto)
  then show ?case
    using r(1,2) k by (subst print_nodes.simps) (simp add: key_items_def)
qed

lemma print_levels_wf:
  assumes wf: "wfh H h ns"
  shows "n \<le> lvl H h \<Longrightarrow>
         print_levels n H h os = Some (os @ concat (map (level_line H ns) (rev [0..<n])))"
proof (induction n arbitrary: os)
  case 0
  then show ?case by simp
next
  case (Suc i)
  then have i: "i < lvl H h" by simp
  from wfh_seg[OF wf i] obtain r where r: "get_next H h i = Some r"
    "seg H i r (filter (\<lambda>a. i < lvl H a) ns) None"
    by (auto split: option.splits)
  have p: "print_nodes H i r (os @ [OStr ''Level '', OInt (int i), OStr '': '']) =
           Some ((os @ [OStr ''Level '', OInt (int i), OStr '': '']) @
                 key_items H (filter (\<lambda>a. i < lvl H a) ns))"
    by (rule print_nodes_seg[OF r(2)]) (use wfh_lvl_pos[OF wf] in auto)
  have step: "print_levels (Suc i) H h os = print_levels i H h (os @ level_line H ns i)"
    using r(1) p by (simp add: level_line_def)
  have "print_levels i H h (os @ level_line H ns i) =
        Some ((os @ level_line H ns i) @ concat (map (level_line H ns) (rev [0..<i])))"
    by (rule Suc.IH) (use i in simp)
  then show ?case unfolding step by simp
qed

lemma printByLevels_wf:
  assumes "wf_nodes H s ns"
  shows "printByLevels H s os =
         Some (os @ [OStr ''SkipList (levels = '', OInt (maxLevel s), OStr '', p = '',
                     ODouble (probability s), OStr (''):'' @ [CHR 0x0A])] @
               concat (map (level_line H ns) (rev [0..<nat (maxLevel s)])))"
proof -
  from wf_nodes_head[OF assms] obtain h where h: "head s = Some h" "nat (maxLevel s) = lvl H h" "wfh H h ns"
    by blast
  show ?thesis
    using h(1,2) print_levels_wf[OF h(3), of "lvl H h"] by (simp add: printByLevels_def)
qed

lemma delete_nodes_seg:
  "seg H 0 p as None \<Longrightarrow> distinct as \<Longrightarrow>
   \<exists>H'. delete_nodes p H = Some H' \<and> lim H' = lim H \<and>
        (\<forall>b. cells H' b = (if b \<in> set as then None else cells H b))"
proof (induction as arbitrary: p H)
  case Nil
  then show ?case by (subst delete_nodes.simps) simp
next
  case (Cons a as)
  from Cons.prems(1) obtain r where r: "p = Some a" "get_next H a 0 = Some r" "seg H 0 r as None"
    by (auto split: option.splits)
  from r(2) have "0 < lvl H a" using get_next_Some_iff[of H a 0] by blast
  then obtain H1 where H1: "delete_Node a H = Some H1" "lim H1 = lim H"
    "\<And>b. b \<noteq> a \<Longrightarrow> cells H1 b = cells H b" "cells H1 a = None"
    by (rule delete_Node_ok[of H a]) blast
  have "seg H1 0 r as None = seg H 0 r as None"
  proof (rule seg_cong)
    fix b assume "b \<in> set as"
    then have "b \<noteq> a" using Cons.prems(2) by auto
    then show "get_next H1 b 0 = get_next H b 0" using cells_eq_view[OF H1(3)] by simp
  qed
  with r(3) have s1: "seg H1 0 r as None" by simp
  from Cons.IH[OF s1] Cons.prems(2)
  obtain H' where H': "delete_nodes r H1 = Some H'" "lim H' = lim H1"
    "\<And>b. cells H' b = (if b \<in> set as then None else cells H1 b)"
    by auto
  have "delete_nodes p H = Some H'"
    using r(1,2) H1(1) H'(1) by (subst delete_nodes.simps) simp
  moreover have "\<And>b. cells H' b = (if b \<in> set (a # as) then None else cells H b)"
    using H'(3) H1(3,4) by auto
  ultimately show ?case using H'(2) H1(2) by auto
qed

lemma release_wf:
  assumes wf: "wf_nodes H s ns" and hd: "head s = Some h"
  shows "\<exists>H'. release H s = Some H' \<and> lim H' = lim H \<and>
        (\<forall>b. cells H' b = (if b \<in> insert h (set ns) then None else cells H b))"
proof -
  from wf_nodes_head[OF wf] hd have wfh: "wfh H h ns" by auto
  from wfh_seg0[OF wfh] obtain r where r: "get_next H h 0 = Some r" "seg H 0 r ns None" by blast
  have "distinct ns" using wfh_sorted[OF wfh] by (rule sorted_wrt_map_distinct)
  from delete_nodes_seg[OF r(2) this]
  obtain H1 where H1: "delete_nodes r H = Some H1" "lim H1 = lim H"
    "\<And>b. cells H1 b = (if b \<in> set ns then None else cells H b)"
    by auto
  have "cells H1 h = cells H h" using H1(3) wfh_head_notin[OF wfh] by simp
  then have "0 < lvl H1 h" using wfh_lvl_head[OF wfh] cells_eq_view[of H1 h H] by simp
  then obtain H2 where H2: "delete_Node h H1 = Some H2" "lim H2 = lim H1"
    "\<And>b. b \<noteq> h \<Longrightarrow> cells H2 b = cells H1 b" "cells H2 h = None"
    by (rule delete_Node_ok[of H1 h]) blast
  have "release H s = Some H2" using hd r(1) H1(1) H2(1) by (simp add: release_def)
  moreover have "cells H2 b = (if b \<in> insert h (set ns) then None else cells H b)" for b
  proof (cases "b = h")
    case True
    then show ?thesis using H2(4) by simp
  next
    case False
    then show ?thesis using H2(3)[OF False] H1(3) by simp
  qed
  ultimately show ?thesis using H2(2) H1(2) by auto
qed

section \<open>The loop of the level generator\<close>

lemma after_draws_Suc: "after_draws draw (snd (draw g)) n = after_draws draw g (Suc n)"
  unfolding after_draws_def by (induction n) simp_all

lemma randomLevel_loop_char:
  "level \<le> fst (randomLevel_loop draw s level g) \<and>
   (\<forall>L. level \<le> L \<and> L < fst (randomLevel_loop draw s level g) \<longrightarrow>
        fst (draw (after_draws draw g (nat (L - level)))) < probability s \<and>
        L < maxAllowedLevel s \<and> L \<le> maxLevel s) \<and>
   \<not> (fst (draw (after_draws draw g (nat (fst (randomLevel_loop draw s level g) - level)))) < probability s \<and>
      fst (randomLevel_loop draw s level g) < maxAllowedLevel s \<and>
      fst (randomLevel_loop draw s level g) \<le> maxLevel s) \<and>
   snd (randomLevel_loop draw s level g) =
     after_draws draw g (Suc (nat (fst (randomLevel_loop draw s level g) - level)))"
proof (induction draw s level g rule: randomLevel_loop.induct)
  case (1 draw s level g)
  show ?case
  proof (cases "fst (draw g) < probability s \<and> level < maxAllowedLevel s \<and> level < maxLevel s + 1")
    case False
    show ?thesis
      unfolding randomLevel_loop_unfold2[of draw g s level, OF False]
      using False by (simp add: after_draws_def)
  next
    case True
    let ?r = "fst (randomLevel_loop draw s (level + 1) (snd (draw g)))"
    note IH = 1[OF True]
    have le: "level + 1 \<le> ?r" using IH by blast
    have n: "nat (?r - level) = Suc (nat (?r - (level + 1)))" using le by simp
    have a: "fst (draw (after_draws draw g (nat (L - level)))) < probability s \<and>
             L < maxAllowedLevel s \<and> L \<le> maxLevel s" if "level \<le> L" "L < ?r" for L
    proof (cases "L = level")
      case True
      then show ?thesis using \<open>fst (draw g) < probability s \<and> level < maxAllowedLevel s \<and> level < maxLevel s + 1\<close>
        by (simp add: after_draws_def)
    next
      case False
      with that have L: "level + 1 \<le> L" by simp
      then have "nat (L - level) = Suc (nat (L - (level + 1)))" by simp
      then show ?thesis using IH L that(2) by (simp add: after_draws_Suc)
    qed
    show ?thesis
      unfolding randomLevel_loop_unfold1[of draw g s level, OF True] n
      using IH le a by (simp add: after_draws_Suc)
  qed
qed

section \<open>Frames: the lists of one heap do not disturb each other\<close>

lemma wf_nodes_frame:
  assumes "wf_nodes H s ns" "\<And>a. a \<in> fp s ns \<Longrightarrow> cells H' a = cells H a"
  shows "wf_nodes H' s ns"
proof -
  from wf_nodes_head[OF assms(1)] obtain h where h: "head s = Some h" "wfh H h ns" by blast
  have c: "\<And>a. a \<in> insert h (set ns) \<Longrightarrow> cells H' a = cells H a"
    using assms(2) h(1) by (auto simp: fp_def)
  have "wfh H' h ns" using wfh_cong[of h ns H' H, OF c] h(2) by simp
  moreover have "lvl H' h = lvl H h" using cells_eq_view[OF c, of h] by simp
  ultimately show ?thesis using assms(1) h(1) by (simp add: wf_nodes_def)
qed

lemma fp_alloc:
  assumes "wf_nodes H s ns" "a \<in> fp s ns"
  shows "0 < lvl H a"
proof -
  from wf_nodes_head[OF assms(1)] obtain h where h: "head s = Some h" "wfh H h ns" by blast
  from assms(2) h(1) have "a = h \<or> a \<in> set ns" by (auto simp: fp_def)
  then show ?thesis using wfh_lvl_head[OF h(2)] wfh_lvl_pos[OF h(2)] by auto
qed

lemma fp_below_lim:
  assumes "heap_ok H" "wf_nodes H s ns" "a \<in> fp s ns"
  shows "a < lim H"
  by (rule heap_ok_alloc[OF assms(1) fp_alloc[OF assms(2,3)]])

lemma winv_update:
  assumes inv: "winv_f W f"
    and ok: "heap_ok (heap W')"
    and same: "\<And>j. j \<notin> I \<Longrightarrow> objs W' j = objs W j \<and> f' j = f j"
    and frame: "\<And>b. b < lim (heap W) \<Longrightarrow> b \<notin> (\<Union>j\<in>I. owned W f j) \<Longrightarrow>
                  cells (heap W') b = cells (heap W) b"
    and new: "\<And>i s. i \<in> I \<Longrightarrow> objs W' i = Some s \<Longrightarrow>
                wf_nodes (heap W') s (f' i) \<and> maxLevel s \<le> max 1 (maxAllowedLevel s) \<and>
                fp s (f' i) \<subseteq> (\<Union>j\<in>I. owned W f j) \<union> {b. lim (heap W) \<le> b}"
    and disj: "\<And>i j s t. i \<in> I \<Longrightarrow> j \<in> I \<Longrightarrow> i \<noteq> j \<Longrightarrow> objs W' i = Some s \<Longrightarrow>
                 objs W' j = Some t \<Longrightarrow> fp s (f' i) \<inter> fp t (f' j) = {}"
  shows "winv_f W' f'"
proof -
  from inv have okW: "heap_ok (heap W)"
    and wfW: "\<And>i s. objs W i = Some s \<Longrightarrow> wf_nodes (heap W) s (f i)"
    and bdW: "\<And>i s. objs W i = Some s \<Longrightarrow> maxLevel s \<le> max 1 (maxAllowedLevel s)"
    and djW: "\<And>i j s t. i \<noteq> j \<Longrightarrow> objs W i = Some s \<Longrightarrow> objs W j = Some t \<Longrightarrow>
                fp s (f i) \<inter> fp t (f j) = {}"
    unfolding winv_f_def by blast+
  have old: "fp s (f j) \<inter> ((\<Union>i\<in>I. owned W f i) \<union> {b. lim (heap W) \<le> b}) = {}"
    if "j \<notin> I" "objs W j = Some s" for j s
  proof -
    have "fp s (f j) \<inter> owned W f i = {}" if "i \<in> I" for i
    proof (cases "objs W i")
      case None
      then show ?thesis by (simp add: owned_def)
    next
      case (Some t)
      have "j \<noteq> i" using \<open>j \<notin> I\<close> that by auto
      from djW[OF this \<open>objs W j = Some s\<close> Some] Some show ?thesis by (simp add: owned_def)
    qed
    moreover have "fp s (f j) \<inter> {b. lim (heap W) \<le> b} = {}"
    proof -
      have "\<not> lim (heap W) \<le> a" if "a \<in> fp s (f j)" for a
        using fp_below_lim[OF okW wfW[OF \<open>objs W j = Some s\<close>] that] by simp
      then show ?thesis by blast
    qed
    ultimately show ?thesis by blast
  qed
  have keep: "wf_nodes (heap W') s (f j)" if "j \<notin> I" "objs W j = Some s" for j s
  proof (rule wf_nodes_frame[OF wfW[OF that(2)]])
    fix a assume a: "a \<in> fp s (f j)"
    have "a < lim (heap W)" by (rule fp_below_lim[OF okW wfW[OF that(2)] a])
    moreover have "a \<notin> (\<Union>i\<in>I. owned W f i)" using old[OF that] a by blast
    ultimately show "cells (heap W') a = cells (heap W) a" by (rule frame)
  qed
  have c2: "wf_nodes (heap W') s (f' i) \<and> maxLevel s \<le> max 1 (maxAllowedLevel s)"
    if "objs W' i = Some s" for i s
  proof (cases "i \<in> I")
    case True
    then show ?thesis using new[OF True that] by simp
  next
    case False
    with same[OF False] that have "objs W i = Some s" "f' i = f i" by simp_all
    then show ?thesis using keep[OF False] bdW by simp
  qed
  have c3: "fp s (f' i) \<inter> fp t (f' j) = {}"
    if "i \<noteq> j" "objs W' i = Some s" "objs W' j = Some t" for i j s t
  proof (cases "i \<in> I"; cases "j \<in> I")
    assume "i \<in> I" "j \<in> I"
    then show ?thesis using disj that by blast
  next
    assume i: "i \<in> I" and j: "j \<notin> I"
    from same[OF j] that(3) have "objs W j = Some t" "f' j = f j" by simp_all
    with old[OF j] new[OF i that(2)] show ?thesis by auto
  next
    assume i: "i \<notin> I" and j: "j \<in> I"
    from same[OF i] that(2) have "objs W i = Some s" "f' i = f i" by simp_all
    with old[OF i] new[OF j that(3)] show ?thesis by auto
  next
    assume i: "i \<notin> I" and j: "j \<notin> I"
    from same[OF i] same[OF j] that(2,3)
    have "objs W i = Some s" "f' i = f i" "objs W j = Some t" "f' j = f j" by simp_all
    with djW[OF that(1)] show ?thesis by simp
  qed
  show ?thesis unfolding winv_f_def using ok c2 c3 by blast
qed

lemma SkipList_fresh:
  assumes "heap_ok H"
  shows "\<exists>H'. SkipList dk p m g H =
            (H', \<lparr>head = Some (lim H), maxLevel = 1, maxAllowedLevel = m, probability = p, rng = g\<rparr>) \<and>
          heap_ok H' \<and> lim H' = Suc (lim H) \<and>
          wf_nodes H' \<lparr>head = Some (lim H), maxLevel = 1, maxAllowedLevel = m, probability = p, rng = g\<rparr> [] \<and>
          cells H' (lim H) = Some \<lparr>key = dk, nxt = [None]\<rparr> \<and>
          (\<forall>b. b \<noteq> lim H \<longrightarrow> cells H' b = cells H b)"
proof -
  obtain H' where n: "new_Node dk 1 H = (lim H, H')" by (simp add: new_Node_def)
  note N = new_Node_ok[OF assms n]
  have "wfh H' (lim H) []"
    unfolding wfh_def using N(5,7) by simp
  then have "wf_nodes H' \<lparr>head = Some (lim H), maxLevel = 1, maxAllowedLevel = m, probability = p, rng = g\<rparr> []"
    using N(5) by (simp add: wf_nodes_def)
  moreover have "cells H' (lim H) = Some \<lparr>key = dk, nxt = [None]\<rparr>"
    using n by (auto simp: new_Node_def)
  ultimately show ?thesis
    using n N(3,4,8) by (simp add: SkipList_def)
qed

lemma transfer_wf:
  assumes ok: "heap_ok H" and wf: "wf_nodes H ot ns"
  shows "\<exists>H' ot'. transfer dk H ot = (H', ot, ot') \<and>
           (H', ot') = SkipList dk (probability ot) (maxAllowedLevel ot) (rng ot) H"
proof -
  from wf_nodes_head[OF wf] obtain h where h: "head ot = Some h" by blast
  obtain H' where n: "new_Node dk 1 H = (lim H, H')" by (simp add: new_Node_def)
  have 1: "resetToEmpty dk (H, \<lparr>head = head ot, maxLevel = maxLevel ot,
                    maxAllowedLevel = maxAllowedLevel ot,
                    probability = probability ot, rng = rng ot\<rparr>) = (H, ot)"
    using h by (simp add: resetToEmpty_def)
  have 2: "resetToEmpty dk (H, ot\<lparr>head := None, maxLevel := 1\<rparr>) =
           (H', ot\<lparr>head := Some (lim H), maxLevel := 1\<rparr>)"
    using n by (simp add: resetToEmpty_def)
  have 3: "SkipList dk (probability ot) (maxAllowedLevel ot) (rng ot) H =
           (H', ot\<lparr>head := Some (lim H), maxLevel := 1\<rparr>)"
    using n by (simp add: SkipList_def)
  have "transfer dk H ot = (H', ot, ot\<lparr>head := Some (lim H), maxLevel := 1\<rparr>)"
    by (simp add: transfer_def Let_def 1 2)
  then show ?thesis using 3 by simp
qed

lemma winv_fD:
  assumes "winv_f W f"
  shows "heap_ok (heap W)"
    and "\<And>i s. objs W i = Some s \<Longrightarrow> wf_nodes (heap W) s (f i)"
    and "\<And>i s. objs W i = Some s \<Longrightarrow> maxLevel s \<le> max 1 (maxAllowedLevel s)"
    and "\<And>i j s t. i \<noteq> j \<Longrightarrow> objs W i = Some s \<Longrightarrow> objs W j = Some t \<Longrightarrow>
                fp s (f i) \<inter> fp t (f j) = {}"
  using assms unfolding winv_f_def by blast+

lemma winv_init: "winv_f init_world f"
  by (simp add: winv_f_def init_world_def heap_ok_def)

lemma randomLevel_bound:
  "fst (randomLevel draw s) \<le> max 1 (min (maxAllowedLevel s) (maxLevel s + 1))"
  using randomLevel_loop_upper[of draw s 1 "rng s"] by (simp add: randomLevel_state)

lemma randomLevel_fields:
  "head (snd (randomLevel draw s)) = head s"
  "maxLevel (snd (randomLevel draw s)) = maxLevel s"
  "maxAllowedLevel (snd (randomLevel draw s)) = maxAllowedLevel s"
  "probability (snd (randomLevel draw s)) = probability s"
  by (simp_all add: randomLevel_state)

lemma winv_update1:
  assumes inv: "winv_f W f" and ok: "heap_ok H'"
    and frame: "\<And>b. b < lim (heap W) \<Longrightarrow> b \<notin> owned W f i \<Longrightarrow> cells H' b = cells (heap W) b"
    and wf: "wf_nodes H' s' ns'" and bd: "maxLevel s' \<le> max 1 (maxAllowedLevel s')"
    and sub: "fp s' ns' \<subseteq> owned W f i \<union> {b. lim (heap W) \<le> b}"
  shows "winv_f (W\<lparr>heap := H', objs := (objs W)(i \<mapsto> s')\<rparr>) (f(i := ns'))"
proof (rule winv_update[OF inv, of _ "{i}"])
  let ?W = "W\<lparr>heap := H', objs := (objs W)(i \<mapsto> s')\<rparr>"
  show "heap_ok (heap ?W)" using ok by simp
  show "objs ?W j = objs W j \<and> (f(i := ns')) j = f j" if "j \<notin> {i}" for j
    using that by simp
  show "cells (heap ?W) b = cells (heap W) b"
    if "b < lim (heap W)" "b \<notin> (\<Union>j\<in>{i}. owned W f j)" for b
  proof -
    from that(2) have "b \<notin> owned W f i" by simp
    from frame[OF that(1) this] show ?thesis by simp
  qed
  show "wf_nodes (heap ?W) t ((f(i := ns')) j) \<and> maxLevel t \<le> max 1 (maxAllowedLevel t) \<and>
        fp t ((f(i := ns')) j) \<subseteq> (\<Union>j\<in>{i}. owned W f j) \<union> {b. lim (heap W) \<le> b}"
    if "j \<in> {i}" "objs ?W j = Some t" for j t
  proof -
    from that have j: "j = i" and t: "t = s'" by simp_all
    show ?thesis unfolding j t using wf bd sub by simp
  qed
  show "fp s ((f(i := ns')) a) \<inter> fp t ((f(i := ns')) b) = {}"
    if "a \<in> {i}" "b \<in> {i}" "a \<noteq> b" for a b s t
    using that by simp
qed

lemma winv_update2:
  assumes inv: "winv_f W f" and ok: "heap_ok H'" and ij: "i \<noteq> j"
    and frame: "\<And>b. b < lim (heap W) \<Longrightarrow> b \<notin> owned W f i \<Longrightarrow> b \<notin> owned W f j \<Longrightarrow>
                  cells H' b = cells (heap W) b"
    and wfi: "wf_nodes H' si nsi" and bdi: "maxLevel si \<le> max 1 (maxAllowedLevel si)"
    and subi: "fp si nsi \<subseteq> owned W f i \<union> owned W f j \<union> {b. lim (heap W) \<le> b}"
    and wfj: "wf_nodes H' sj nsj" and bdj: "maxLevel sj \<le> max 1 (maxAllowedLevel sj)"
    and subj: "fp sj nsj \<subseteq> owned W f i \<union> owned W f j \<union> {b. lim (heap W) \<le> b}"
    and disj: "fp si nsi \<inter> fp sj nsj = {}"
  shows "winv_f (W\<lparr>heap := H', objs := (objs W)(i \<mapsto> si, j \<mapsto> sj)\<rparr>) (f(i := nsi, j := nsj))"
proof (rule winv_update[OF inv, of _ "{i, j}"])
  let ?W = "W\<lparr>heap := H', objs := (objs W)(i \<mapsto> si, j \<mapsto> sj)\<rparr>"
  let ?f = "f(i := nsi, j := nsj)"
  have U: "(\<Union>a\<in>{i, j}. owned W f a) = owned W f i \<union> owned W f j" by simp
  show "heap_ok (heap ?W)" using ok by simp
  show "objs ?W a = objs W a \<and> ?f a = f a" if "a \<notin> {i, j}" for a
    using that by simp
  show "cells (heap ?W) b = cells (heap W) b"
    if "b < lim (heap W)" "b \<notin> (\<Union>a\<in>{i, j}. owned W f a)" for b
  proof -
    from that(2) have "b \<notin> owned W f i" "b \<notin> owned W f j" unfolding U by simp_all
    from frame[OF that(1) this] show ?thesis by simp
  qed
  show "wf_nodes (heap ?W) t (?f a) \<and> maxLevel t \<le> max 1 (maxAllowedLevel t) \<and>
        fp t (?f a) \<subseteq> (\<Union>a\<in>{i, j}. owned W f a) \<union> {b. lim (heap W) \<le> b}"
    if "a \<in> {i, j}" "objs ?W a = Some t" for a t
  proof (cases "a = j")
    case True
    with that(2) have t: "t = sj" by simp
    show ?thesis unfolding U True t using wfj bdj subj by simp
  next
    case False
    with that have a: "a = i" by simp
    with that(2) ij have t: "t = si" by simp
    show ?thesis unfolding U a t using wfi bdi subi ij by simp
  qed
  show "fp s (?f a) \<inter> fp t (?f b) = {}"
    if "a \<in> {i, j}" "b \<in> {i, j}" "a \<noteq> b" "objs ?W a = Some s" "objs ?W b = Some t" for a b s t
  proof (cases "a = i")
    case True
    with that(2,3) have b: "b = j" by simp
    from that(4,5) ij have "s = si" "t = sj" unfolding True b by simp_all
    then show ?thesis unfolding True b using disj ij by simp
  next
    case False
    with that(1) have a: "a = j" by simp
    with that(2,3) have b: "b = i" by simp
    from that(4,5) ij have "s = sj" "t = si" unfolding a b by simp_all
    then show ?thesis unfolding a b using disj ij by (simp add: Int_commute)
  qed
qed

lemma exec_Construct:
  assumes inv: "winv_f W f" and v: "objs W i = None"
  shows "\<exists>W'. exec draw dk (Construct i p m g) W = Some W' \<and> winv_f W' (f(i := []))"
proof -
  note I = winv_fD[OF inv]
  let ?s = "\<lparr>head = Some (lim (heap W)), maxLevel = 1, maxAllowedLevel = m, probability = p, rng = g\<rparr>"
  from SkipList_fresh[OF I(1), of dk p m g]
  obtain H' where H': "SkipList dk p m g (heap W) = (H', ?s)" "heap_ok H'" "lim H' = Suc (lim (heap W))"
    "wf_nodes H' ?s []" "\<And>b. b \<noteq> lim (heap W) \<Longrightarrow> cells H' b = cells (heap W) b"
    by blast
  let ?W = "W\<lparr>heap := H', objs := (objs W)(i \<mapsto> ?s)\<rparr>"
  have e: "exec draw dk (Construct i p m g) W = Some ?W" using v H'(1) by simp
  have "winv_f ?W (f(i := []))"
  proof (rule winv_update1[OF inv H'(2) _ H'(4)])
    show "\<And>b. b < lim (heap W) \<Longrightarrow> b \<notin> owned W f i \<Longrightarrow> cells H' b = cells (heap W) b"
      using H'(5) by simp
    show "maxLevel ?s \<le> max 1 (maxAllowedLevel ?s)" by simp
    show "fp ?s [] \<subseteq> owned W f i \<union> {b. lim (heap W) \<le> b}" by (simp add: fp_def)
  qed
  with e show ?thesis by blast
qed

lemma exec_Insert:
  assumes inv: "winv_f W f" and v: "objs W i = Some s"
  shows "\<exists>W' f'. exec draw dk (Insert i k) W = Some W' \<and> winv_f W' f'"
proof (cases "k \<in> ky (heap W) ` set (f i)")
  case True
  note I = winv_fD[OF inv]
  have "insert_key draw k (heap W, s) = Some (heap W, s)"
    by (rule insert_key_present[OF I(2)[OF v] True])
  moreover have "W\<lparr>heap := heap W, objs := (objs W)(i \<mapsto> s)\<rparr> = W"
    using v by (simp add: map_upd_triv)
  ultimately have "exec draw dk (Insert i k) W = Some W" using v by simp
  with inv show ?thesis by blast
next
  case False
  note I = winv_fD[OF inv]
  from wf_nodes_head[OF I(2)[OF v]] obtain h where h: "head s = Some h" by blast
  define s' where "s' = (snd (randomLevel draw s))\<lparr>maxLevel := max (maxLevel s) (fst (randomLevel draw s))\<rparr>"
  define ns' where "ns' = filter (\<lambda>a. ky (heap W) a < k) (f i) @ lim (heap W) # filter (\<lambda>a. \<not> ky (heap W) a < k) (f i)"
  from insert_key_fresh[OF I(1) I(2)[OF v] False h, of draw]
  obtain H' where H': "insert_key draw k (heap W, s) = Some (H', s')" "heap_ok H'"
    "wf_nodes H' s' ns'"
    "\<And>b. b \<notin> insert h (set (f i)) \<Longrightarrow> b \<noteq> lim (heap W) \<Longrightarrow> cells H' b = cells (heap W) b"
    unfolding s'_def ns'_def by blast
  have e: "exec draw dk (Insert i k) W = Some (W\<lparr>heap := H', objs := (objs W)(i \<mapsto> s')\<rparr>)"
    using v H'(1) by simp
  have ow: "owned W f i = insert h (set (f i))" using v h by (simp add: owned_def fp_def)
  have hs: "head s' = Some h" "maxAllowedLevel s' = maxAllowedLevel s"
    unfolding s'_def using h by (simp_all add: randomLevel_fields)
  have ms: "maxLevel s' = max (maxLevel s) (fst (randomLevel draw s))" unfolding s'_def by simp
  have bd: "maxLevel s' \<le> max 1 (maxAllowedLevel s')"
    unfolding hs ms using I(3)[OF v] randomLevel_bound[of draw s] by linarith
  have sub: "fp s' ns' \<subseteq> owned W f i \<union> {b. lim (heap W) \<le> b}"
    unfolding ow fp_def hs ns'_def by auto
  have "winv_f (W\<lparr>heap := H', objs := (objs W)(i \<mapsto> s')\<rparr>) (f(i := ns'))"
  proof (rule winv_update1[OF inv H'(2) _ H'(3) bd sub])
    fix b assume "b < lim (heap W)" "b \<notin> owned W f i"
    then show "cells H' b = cells (heap W) b" unfolding ow by (intro H'(4)) auto
  qed
  with e show ?thesis by blast
qed

lemma exec_Erase:
  assumes inv: "winv_f W f" and v: "objs W i = Some s"
  shows "\<exists>W' f'. exec draw dk (Erase i k) W = Some W' \<and> winv_f W' f'"
proof (cases "k \<in> ky (heap W) ` set (f i)")
  case False
  note I = winv_fD[OF inv]
  have "erase k (heap W, s) = Some (False, heap W, s)"
    by (rule erase_absent[OF I(2)[OF v] False])
  moreover have "W\<lparr>heap := heap W, objs := (objs W)(i \<mapsto> s)\<rparr> = W"
    using v by (simp add: map_upd_triv)
  ultimately have "exec draw dk (Erase i k) W = Some W" using v by simp
  with inv show ?thesis by blast
next
  case True
  then obtain cur where cur: "cur \<in> set (f i)" "k = ky (heap W) cur" by blast
  note I = winv_fD[OF inv]
  from wf_nodes_head[OF I(2)[OF v]] obtain h where h: "head s = Some h" by blast
  define ns' where "ns' = filter (\<lambda>a. a \<noteq> cur) (f i)"
  from erase_present[OF I(1) I(2)[OF v] cur(1) h]
  obtain H' m where H': "erase k (heap W, s) = Some (True, H', s\<lparr>maxLevel := m\<rparr>)" "heap_ok H'"
    "wf_nodes H' (s\<lparr>maxLevel := m\<rparr>) ns'" "m \<le> maxLevel s"
    "\<And>b. b \<notin> insert h (set (f i)) \<Longrightarrow> cells H' b = cells (heap W) b"
    unfolding cur(2) ns'_def by blast
  have e: "exec draw dk (Erase i k) W = Some (W\<lparr>heap := H', objs := (objs W)(i \<mapsto> s\<lparr>maxLevel := m\<rparr>)\<rparr>)"
    using v H'(1) by simp
  have ow: "owned W f i = insert h (set (f i))" using v h by (simp add: owned_def fp_def)
  have bd: "maxLevel (s\<lparr>maxLevel := m\<rparr>) \<le> max 1 (maxAllowedLevel (s\<lparr>maxLevel := m\<rparr>))"
    using I(3)[OF v] H'(4) by simp
  have sub: "fp (s\<lparr>maxLevel := m\<rparr>) ns' \<subseteq> owned W f i \<union> {b. lim (heap W) \<le> b}"
    unfolding ow fp_def ns'_def using h by auto
  have "winv_f (W\<lparr>heap := H', objs := (objs W)(i \<mapsto> s\<lparr>maxLevel := m\<rparr>)\<rparr>) (f(i := ns'))"
  proof (rule winv_update1[OF inv H'(2) _ H'(3) bd sub])
    fix b assume "b < lim (heap W)" "b \<notin> owned W f i"
    then show "cells H' b = cells (heap W) b" unfolding ow by (intro H'(5)) auto
  qed
  with e show ?thesis by blast
qed

lemma exec_queries:
  assumes inv: "winv_f W f" and v: "objs W i = Some s"
  shows "exec draw dk (Contains i k) W = Some W"
    and "exec draw dk (PrintByLevels i) W = Some W"
    and "exec draw dk (Iterate i) W = Some W"
  using v contains_wf[OF winv_fD(2)[OF inv v]] printByLevels_wf[OF winv_fD(2)[OF inv v]]
    to_list_wf[OF winv_fD(2)[OF inv v]]
  by simp_all

lemma exec_Destroy:
  assumes inv: "winv_f W f" and v: "objs W i = Some s"
  shows "\<exists>W'. exec draw dk (Destroy i) W = Some W' \<and> winv_f W' f"
proof -
  note I = winv_fD[OF inv]
  from wf_nodes_head[OF I(2)[OF v]] obtain h where h: "head s = Some h" by blast
  from release_wf[OF I(2)[OF v] h]
  obtain H' where H': "release (heap W) s = Some H'" "lim H' = lim (heap W)"
    "\<And>b. cells H' b = (if b \<in> insert h (set (f i)) then None else cells (heap W) b)"
    by blast
  let ?W = "W\<lparr>heap := H', objs := (objs W)(i := None)\<rparr>"
  have e: "exec draw dk (Destroy i) W = Some ?W" using v H'(1) by simp
  have ow: "owned W f i = insert h (set (f i))" using v h by (simp add: owned_def fp_def)
  have ok: "heap_ok H'" using I(1) H'(2,3) by (simp add: heap_ok_def)
  have "winv_f ?W f"
  proof (rule winv_update[OF inv, of _ "{i}"])
    show "heap_ok (heap ?W)" using ok by simp
    show "objs ?W j = objs W j \<and> f j = f j" if "j \<notin> {i}" for j using that by simp
    show "cells (heap ?W) b = cells (heap W) b"
      if "b < lim (heap W)" "b \<notin> (\<Union>j\<in>{i}. owned W f j)" for b
      using that(2) H'(3) ow by simp
    show "wf_nodes (heap ?W) t (f j) \<and> maxLevel t \<le> max 1 (maxAllowedLevel t) \<and>
          fp t (f j) \<subseteq> (\<Union>j\<in>{i}. owned W f j) \<union> {b. lim (heap W) \<le> b}"
      if "j \<in> {i}" "objs ?W j = Some t" for j t
      using that by simp
    show "fp s (f a) \<inter> fp t (f b) = {}" if "a \<in> {i}" "b \<in> {i}" "a \<noteq> b" for a b s t
      using that by simp
  qed
  with e show ?thesis by blast
qed

text \<open>The effect of the transfer on a heap that holds the source list.\<close>

lemma transfer_ok:
  assumes ok: "heap_ok H" and wf: "wf_nodes H ot ns"
  shows "\<exists>H' ot'. transfer dk H ot = (H', ot, ot') \<and>
           (H', ot') = SkipList dk (probability ot) (maxAllowedLevel ot) (rng ot) H \<and>
           heap_ok H' \<and> lim H' = Suc (lim H) \<and>
           wf_nodes H' ot ns \<and> wf_nodes H' ot' [] \<and>
           head ot' = Some (lim H) \<and> maxLevel ot' = 1 \<and>
           maxAllowedLevel ot' = maxAllowedLevel ot \<and>
           (\<forall>b. b \<noteq> lim H \<longrightarrow> cells H' b = cells H b)"
proof -
  from transfer_wf[OF ok wf, of dk] obtain H' ot' where t: "transfer dk H ot = (H', ot, ot')"
    "(H', ot') = SkipList dk (probability ot) (maxAllowedLevel ot) (rng ot) H"
    by blast
  let ?s = "\<lparr>head = Some (lim H), maxLevel = 1, maxAllowedLevel = maxAllowedLevel ot,
             probability = probability ot, rng = rng ot\<rparr>"
  from SkipList_fresh[OF ok, of dk "probability ot" "maxAllowedLevel ot" "rng ot"] t(2)
  have F: "ot' = ?s" "heap_ok H'" "lim H' = Suc (lim H)" "wf_nodes H' ?s []"
    "\<And>b. b \<noteq> lim H \<Longrightarrow> cells H' b = cells H b"
    by auto
  have "wf_nodes H' ot ns"
  proof (rule wf_nodes_frame[OF wf])
    fix a assume "a \<in> fp ot ns"
    then have "a < lim H" by (rule fp_below_lim[OF ok wf])
    then show "cells H' a = cells H a" using F(5) by simp
  qed
  then show ?thesis using t F by simp
qed

lemma winv_transfer:
  assumes inv: "winv_f W f" and ij: "i \<noteq> j" and vj: "objs W j = Some ot"
    and ok1: "heap_ok H1" and lim1: "lim H1 = lim (heap W)"
    and fr1: "\<And>b. b \<notin> owned W f i \<Longrightarrow> cells H1 b = cells (heap W) b"
  shows "\<exists>H' ot'. transfer dk H1 ot = (H', ot, ot') \<and>
           (H', ot') = SkipList dk (probability ot) (maxAllowedLevel ot) (rng ot) H1 \<and>
           wf_nodes H' ot (f j) \<and> wf_nodes H' ot' [] \<and>
           winv_f (W\<lparr>heap := H', objs := (objs W)(i \<mapsto> ot, j \<mapsto> ot')\<rparr>) (f(i := f j, j := []))"
proof -
  note I = winv_fD[OF inv]
  have dj: "fp ot (f j) \<inter> owned W f i = {}"
  proof (cases "objs W i")
    case None
    then show ?thesis by (simp add: owned_def)
  next
    case (Some t)
    from I(4)[OF ij[symmetric] vj Some] Some show ?thesis by (simp add: owned_def)
  qed
  have wf1: "wf_nodes H1 ot (f j)"
  proof (rule wf_nodes_frame[OF I(2)[OF vj]])
    fix a assume "a \<in> fp ot (f j)"
    then have "a \<notin> owned W f i" using dj by blast
    then show "cells H1 a = cells (heap W) a" by (rule fr1)
  qed
  from transfer_ok[OF ok1 wf1, of dk]
  obtain H' ot' where T: "transfer dk H1 ot = (H', ot, ot')"
    "(H', ot') = SkipList dk (probability ot) (maxAllowedLevel ot) (rng ot) H1"
    "heap_ok H'" "wf_nodes H' ot (f j)" "wf_nodes H' ot' []"
    "head ot' = Some (lim H1)" "maxLevel ot' = 1"
    "\<And>b. b \<noteq> lim H1 \<Longrightarrow> cells H' b = cells H1 b"
    by blast
  have owj: "owned W f j = fp ot (f j)" using vj by (simp add: owned_def)
  have below: "a < lim (heap W)" if "a \<in> fp ot (f j)" for a
    using fp_below_lim[OF I(1) I(2)[OF vj] that] .
  have "winv_f (W\<lparr>heap := H', objs := (objs W)(i \<mapsto> ot, j \<mapsto> ot')\<rparr>) (f(i := f j, j := []))"
  proof (rule winv_update2[OF inv T(3) ij _ T(4) I(3)[OF vj] _ T(5)])
    show "cells H' b = cells (heap W) b"
      if "b < lim (heap W)" "b \<notin> owned W f i" "b \<notin> owned W f j" for b
      using T(8)[of b] fr1[OF that(2)] that(1) lim1 by simp
    show "fp ot (f j) \<subseteq> owned W f i \<union> owned W f j \<union> {b. lim (heap W) \<le> b}"
      unfolding owj by blast
    show "maxLevel ot' \<le> max 1 (maxAllowedLevel ot')" using T(7) by simp
    show "fp ot' [] \<subseteq> owned W f i \<union> owned W f j \<union> {b. lim (heap W) \<le> b}"
      using T(6) lim1 by (simp add: fp_def)
    show "fp ot (f j) \<inter> fp ot' [] = {}"
      using below T(6) lim1 by (auto simp: fp_def)
  qed
  with T show ?thesis by blast
qed

lemma exec_MoveConstruct:
  assumes inv: "winv_f W f" and vi: "objs W i = None" and vj: "objs W j = Some ot"
  shows "\<exists>W'. exec draw dk (MoveConstruct i j) W = Some W' \<and> winv_f W' (f(i := f j, j := []))"
proof -
  have ij: "i \<noteq> j" using vi vj by auto
  from winv_transfer[OF inv ij vj winv_fD(1)[OF inv] refl, of dk]
  obtain H' ot' where T: "transfer dk (heap W) ot = (H', ot, ot')"
    "winv_f (W\<lparr>heap := H', objs := (objs W)(i \<mapsto> ot, j \<mapsto> ot')\<rparr>) (f(i := f j, j := []))"
    by blast
  have "exec draw dk (MoveConstruct i j) W =
        Some (W\<lparr>heap := H', objs := (objs W)(i \<mapsto> ot, j \<mapsto> ot')\<rparr>)"
    using vi vj T(1) by (simp add: move_construct_def)
  with T(2) show ?thesis by blast
qed

lemma exec_MoveAssign:
  assumes inv: "winv_f W f" and vi: "objs W i = Some t" and vj: "objs W j = Some ot"
  shows "\<exists>W' f'. exec draw dk (MoveAssign i j) W = Some W' \<and> winv_f W' f'"
proof (cases "i = j")
  case True
  then have "exec draw dk (MoveAssign i j) W = Some W" using vi by (simp add: move_assign_def)
  with inv show ?thesis by blast
next
  case False
  note I = winv_fD[OF inv]
  from wf_nodes_head[OF I(2)[OF vi]] obtain h where h: "head t = Some h" by blast
  from release_wf[OF I(2)[OF vi] h]
  obtain H1 where H1: "release (heap W) t = Some H1" "lim H1 = lim (heap W)"
    "\<And>b. cells H1 b = (if b \<in> insert h (set (f i)) then None else cells (heap W) b)"
    by blast
  have ow: "owned W f i = insert h (set (f i))" using vi h by (simp add: owned_def fp_def)
  have ok1: "heap_ok H1" using I(1) H1(2,3) by (simp add: heap_ok_def)
  have fr1: "\<And>b. b \<notin> owned W f i \<Longrightarrow> cells H1 b = cells (heap W) b"
    unfolding ow using H1(3) by simp
  from winv_transfer[OF inv False vj ok1 H1(2) fr1, of dk]
  obtain H' ot' where T: "transfer dk H1 ot = (H', ot, ot')"
    "winv_f (W\<lparr>heap := H', objs := (objs W)(i \<mapsto> ot, j \<mapsto> ot')\<rparr>) (f(i := f j, j := []))"
    by blast
  have "exec draw dk (MoveAssign i j) W =
        Some (W\<lparr>heap := H', objs := (objs W)(i \<mapsto> ot, j \<mapsto> ot')\<rparr>)"
    using vi vj False H1(1) T(1) by (simp add: move_assign_def)
  with T(2) show ?thesis by blast
qed

text \<open>Every call of a program on live objects returns and keeps the invariant.\<close>

lemma exec_winv:
  assumes "winv W" "valid c W"
  shows "\<exists>W'. exec draw dk c W = Some W' \<and> winv W'"
proof -
  from assms(1) obtain f where inv: "winv_f W f" unfolding winv_def by blast
  show ?thesis
  proof (cases c)
    case (Construct i p m g)
    with assms(2) exec_Construct[OF inv, of i draw dk p m g] show ?thesis
      unfolding winv_def by auto
  next
    case (MoveConstruct i j)
    with assms(2) obtain ot where "objs W i = None" "objs W j = Some ot" by auto
    from exec_MoveConstruct[OF inv this, of draw dk] MoveConstruct show ?thesis
      unfolding winv_def by auto
  next
    case (MoveAssign i j)
    with assms(2) obtain t ot where "objs W i = Some t" "objs W j = Some ot" by auto
    from exec_MoveAssign[OF inv this, of draw dk] MoveAssign show ?thesis
      unfolding winv_def by auto
  next
    case (Destroy i)
    with assms(2) obtain s where "objs W i = Some s" by auto
    from exec_Destroy[OF inv this, of draw dk] Destroy show ?thesis
      unfolding winv_def by auto
  next
    case (Insert i k)
    with assms(2) obtain s where "objs W i = Some s" by auto
    from exec_Insert[OF inv this, of draw dk k] Insert show ?thesis
      unfolding winv_def by auto
  next
    case (Erase i k)
    with assms(2) obtain s where "objs W i = Some s" by auto
    from exec_Erase[OF inv this, of draw dk k] Erase show ?thesis
      unfolding winv_def by auto
  next
    case (Contains i k)
    with assms(2) obtain s where "objs W i = Some s" by auto
    from exec_queries(1)[OF inv this, of draw dk k] Contains assms(1) show ?thesis by auto
  next
    case (PrintByLevels i)
    with assms(2) obtain s where "objs W i = Some s" by auto
    from exec_queries(2)[OF inv this, of draw dk] PrintByLevels assms(1) show ?thesis by auto
  next
    case (Iterate i)
    with assms(2) obtain s where "objs W i = Some s" by auto
    from exec_queries(3)[OF inv this, of draw dk] Iterate assms(1) show ?thesis by auto
  qed
qed

lemma exec_valid: "exec draw dk c W = Some W' \<Longrightarrow> valid c W"
  by (cases c) (auto simp: move_assign_def split: option.splits)

lemma reach_winv: "reach draw dk W \<Longrightarrow> winv W"
proof (induction rule: reach.induct)
  case init
  show ?case unfolding winv_def using winv_init by blast
next
  case (step W c W')
  from exec_winv[OF step.IH exec_valid[OF step.hyps(2)], of draw dk] step.hyps(2)
  show ?case by simp
qed

lemma reach_wf:
  assumes "reach draw dk W" "objs W i = Some s"
  shows "heap_ok (heap W)" and "\<exists>ns. wf_nodes (heap W) s ns"
    and "maxLevel s \<le> max 1 (maxAllowedLevel s)"
  using reach_winv[OF assms(1)] assms(2) unfolding winv_def winv_f_def by blast+

section \<open>The key sequence under the operations\<close>

lemma insert_key_list:
  assumes ok: "heap_ok H" and wf: "wf_nodes H s ns"
  shows "\<exists>H' s' ns'. insert_key draw k (H, s) = Some (H', s') \<and> heap_ok H' \<and> wf_nodes H' s' ns' \<and>
           map (ky H') ns' = ins_keys k (map (ky H) ns)"
proof (cases "k \<in> ky H ` set ns")
  case True
  from insert_key_present[OF wf True, of draw] ok wf True show ?thesis
    by (auto simp: ins_keys_def)
next
  case False
  from wf_nodes_head[OF wf] obtain h where h: "head s = Some h" by blast
  define ns' where "ns' = filter (\<lambda>a. ky H a < k) ns @ lim H # filter (\<lambda>a. \<not> ky H a < k) ns"
  from insert_key_fresh[OF ok wf False h, of draw]
  obtain H' s' where R: "insert_key draw k (H, s) = Some (H', s')" "heap_ok H'" "wf_nodes H' s' ns'"
    "ky H' (lim H) = k" "\<And>a. a \<in> set ns \<Longrightarrow> ky H' a = ky H a"
    unfolding ns'_def by blast
  have m: "map (ky H') (filter P ns) = map (ky H) (filter P ns)" for P
    using R(5) by (auto cong: map_cong)
  have "map (ky H') ns' = ins_keys k (map (ky H) ns)"
    unfolding ns'_def ins_keys_def using False R(4) m by (simp add: filter_map comp_def)
  with R(1,2,3) show ?thesis by blast
qed

lemma erase_list:
  assumes ok: "heap_ok H" and wf: "wf_nodes H s ns" and hd: "head s = Some h"
  shows "\<exists>H' s' ns'. erase k (H, s) = Some (k \<in> set (map (ky H) ns), H', s') \<and> heap_ok H' \<and>
           wf_nodes H' s' ns' \<and> map (ky H') ns' = filter (\<lambda>x. x \<noteq> k) (map (ky H) ns) \<and>
           head s' = Some h \<and>
           (k \<in> set (map (ky H) ns) \<longrightarrow>
              maxLevel s' = 1 \<or> (\<exists>a. get_next H' h (nat (maxLevel s' - 1)) = Some (Some a)))"
proof (cases "k \<in> ky H ` set ns")
  case False
  then have "filter (\<lambda>x. x \<noteq> k) (map (ky H) ns) = map (ky H) ns"
    unfolding filter_id_conv by auto
  with erase_absent[OF wf False] ok wf False hd show ?thesis by auto
next
  case True
  then obtain cur where cur: "cur \<in> set ns" "k = ky H cur" by blast
  from wf_nodes_head[OF wf] hd have wfh: "wfh H h ns" by auto
  from erase_present[OF ok wf cur(1) hd]
  obtain H' m where R: "erase k (H, s) = Some (True, H', s\<lparr>maxLevel := m\<rparr>)" "heap_ok H'"
    "wf_nodes H' (s\<lparr>maxLevel := m\<rparr>) (filter (\<lambda>a. a \<noteq> cur) ns)"
    "m = 1 \<or> (\<exists>a. get_next H' h (nat (m - 1)) = Some (Some a))"
    "\<And>a. a \<in> set ns \<Longrightarrow> a \<noteq> cur \<Longrightarrow> ky H' a = ky H a"
    unfolding cur(2) by blast
  have inj: "inj_on (ky H) (set ns)"
    using wfh_sorted[OF wfh] by (metis distinct_map strict_sorted_iff sorted_wrt_map_distinct
        sorted_wrt_map strict_sorted_iff)
  have e: "(a \<noteq> cur) = (ky H a \<noteq> k)" if "a \<in> set ns" for a
    using inj cur that unfolding inj_on_def by blast
  have m: "map (ky H') (filter (\<lambda>a. a \<noteq> cur) ns) = map (ky H) (filter (\<lambda>a. a \<noteq> cur) ns)"
    using R(5) by (auto cong: map_cong)
  have f: "filter (\<lambda>a. a \<noteq> cur) ns = filter (\<lambda>a. ky H a \<noteq> k) ns"
    by (rule filter_cong) (use e in auto)
  have "map (ky H') (filter (\<lambda>a. a \<noteq> cur) ns) = filter (\<lambda>x. x \<noteq> k) (map (ky H) ns)"
    unfolding m unfolding f by (simp add: filter_map comp_def)
  with R(1,2,3,4) True hd show ?thesis
    by (intro exI[of _ H'] exI[of _ "s\<lparr>maxLevel := m\<rparr>"] exI[of _ "filter (\<lambda>a. a \<noteq> cur) ns"]) simp
qed

lemma keys_sorted: "wf_nodes H s ns \<Longrightarrow> sorted_wrt (<) (map (ky H) ns)"
  using wf_nodes_head wfh_sorted by blast

section \<open>The claims of the specification\<close>

lemma reach_demo: "reach low_draw 0 demo_world"
proof -
  have "exec low_draw 0 (Construct 0 (1 / 2) 32 0) init_world = Some demo_world"
    by (simp add: init_world_def demo_world_def SkipList_def new_Node_def flat_list_def)
  with reach.init[of low_draw 0] show ?thesis by (rule reach.step)
qed

lemma objs_demo: "objs demo_world 0 = Some flat_list" "objs demo_world (Suc 0) = None"
  by (simp_all add: demo_world_def)

lemma exec_det_winv:
  assumes "winv W" "exec draw dk c W = Some W'"
  shows "winv W'"
  using exec_winv[OF assms(1) exec_valid[OF assms(2)], of draw dk] assms(2) by simp

lemma winv_wf:
  assumes "winv W" "objs W i = Some s"
  shows "heap_ok (heap W)" "\<exists>ns. wf_nodes (heap W) s ns"
  using assms unfolding winv_def winv_f_def by blast+

lemma exec_upd:
  assumes inv: "winv W" and v: "objs W i = Some s"
  shows "\<exists>W' s' ks. exec draw dk (on i u) W = Some W' \<and> winv W' \<and> objs W' i = Some s' \<and>
           to_list (heap W) s = Some ks \<and> to_list (heap W') s' = Some (apply_upd u ks)"
proof -
  from winv_wf[OF inv v] obtain ns where ok: "heap_ok (heap W)" and wf: "wf_nodes (heap W) s ns"
    by blast
  note tl = to_list_wf[OF wf]
  show ?thesis
  proof (cases u)
    case (Ins k)
    from insert_key_list[OF ok wf, of draw k]
    obtain H' s' ns' where R: "insert_key draw k (heap W, s) = Some (H', s')" "wf_nodes H' s' ns'"
      "map (ky H') ns' = ins_keys k (map (ky (heap W)) ns)"
      by blast
    have e: "exec draw dk (on i u) W = Some (W\<lparr>heap := H', objs := (objs W)(i \<mapsto> s')\<rparr>)"
      using Ins v R(1) by simp
    from exec_det_winv[OF inv e] e tl to_list_wf[OF R(2)] R(3) Ins show ?thesis by simp
  next
    case (Era k)
    from wf_nodes_head[OF wf] obtain h where h: "head s = Some h" by blast
    from erase_list[OF ok wf h, of k]
    obtain H' s' ns' where R: "erase k (heap W, s) = Some (k \<in> set (map (ky (heap W)) ns), H', s')"
      "wf_nodes H' s' ns'"
      "map (ky H') ns' = filter (\<lambda>x. x \<noteq> k) (map (ky (heap W)) ns)"
      by blast
    have e: "exec draw dk (on i u) W = Some (W\<lparr>heap := H', objs := (objs W)(i \<mapsto> s')\<rparr>)"
      using Era v R(1) by simp
    from exec_det_winv[OF inv e] e tl to_list_wf[OF R(2)] R(3) Era show ?thesis by simp
  qed
qed

lemma run_upds:
  assumes "winv W" "objs W i = Some s"
  shows "\<exists>W' s' ks. run draw dk (map (on i) us) W = Some W' \<and> winv W' \<and> objs W' i = Some s' \<and>
           to_list (heap W) s = Some ks \<and>
           to_list (heap W') s' = Some (foldl (\<lambda>ks u. apply_upd u ks) ks us)"
  using assms
proof (induction us arbitrary: W s)
  case Nil
  from winv_wf[OF Nil] obtain ns where "wf_nodes (heap W) s ns" by blast
  from to_list_wf[OF this] Nil show ?case by simp
next
  case (Cons u us)
  from exec_upd[OF Cons.prems, of draw dk u]
  obtain W1 s1 ks where 1: "exec draw dk (on i u) W = Some W1" "winv W1" "objs W1 i = Some s1"
    "to_list (heap W) s = Some ks" "to_list (heap W1) s1 = Some (apply_upd u ks)"
    by blast
  from Cons.IH[OF 1(2,3)] 1(5)
  obtain W' s' where 2: "run draw dk (map (on i) us) W1 = Some W'" "winv W'" "objs W' i = Some s'"
    "to_list (heap W') s' = Some (foldl (\<lambda>ks u. apply_upd u ks) (apply_upd u ks) us)"
    by auto
  show ?case using 1(1,4) 2 by simp
qed

lemma inserted_not_erased_snoc:
  "inserted_not_erased k (us @ [u]) = (u = Ins k \<or> (u \<noteq> Era k \<and> inserted_not_erased k us))"
  by (induction us) auto

lemma set_ins_keys: "set (ins_keys k ks) = insert k (set ks)"
  by (auto simp: ins_keys_def)

lemma keys_after_updates:
  "k \<in> set (foldl (\<lambda>ks u. apply_upd u ks) [] us) \<longleftrightarrow> inserted_not_erased k us"
proof (induction us rule: rev_induct)
  case Nil
  show ?case by simp
next
  case (snoc u us)
  show ?case
  proof (cases u)
    case (Ins x)
    with snoc show ?thesis by (auto simp: inserted_not_erased_snoc set_ins_keys)
  next
    case (Era x)
    with snoc show ?thesis by (auto simp: inserted_not_erased_snoc)
  qed
qed

text \<open>
  C1. From any reachable state, constructing a list under a fresh name and applying any
  sequence of insertions and erasures to it returns, and afterwards \<open>contains k\<close>
  returns true exactly when \<open>k\<close> was inserted at some point of the sequence and not
  erased after it.
\<close>

theorem C1_contains_iff_inserted_not_erased:
  assumes "reach draw dk W" "objs W i = None"
  shows "\<exists>W' s. run draw dk (Construct i p m g # map (on i) us) W = Some W' \<and>
           objs W' i = Some s \<and>
           contains (heap W') s k = Some (inserted_not_erased k us)"
proof -
  have inv: "winv W" by (rule reach_winv[OF assms(1)])
  from inv obtain f where f: "winv_f W f" unfolding winv_def by blast
  let ?s = "\<lparr>head = Some (lim (heap W)), maxLevel = 1, maxAllowedLevel = m, probability = p, rng = g\<rparr>"
  from SkipList_fresh[OF winv_fD(1)[OF f], of dk p m g]
  obtain H1 where H1: "SkipList dk p m g (heap W) = (H1, ?s)" "wf_nodes H1 ?s []" by blast
  let ?W1 = "W\<lparr>heap := H1, objs := (objs W)(i \<mapsto> ?s)\<rparr>"
  have e: "exec draw dk (Construct i p m g) W = Some ?W1" using assms(2) H1(1) by simp
  have inv1: "winv ?W1" by (rule exec_det_winv[OF inv e])
  have o1: "objs ?W1 i = Some ?s" by simp
  have t1: "to_list (heap ?W1) ?s = Some []" using to_list_wf[OF H1(2)] by simp
  from run_upds[OF inv1 o1, of draw dk us] t1
  obtain W' s' where R: "run draw dk (map (on i) us) ?W1 = Some W'" "winv W'" "objs W' i = Some s'"
    "to_list (heap W') s' = Some (foldl (\<lambda>ks u. apply_upd u ks) [] us)"
    by auto
  from winv_wf[OF R(2,3)] obtain ns where wf: "wf_nodes (heap W') s' ns" by blast
  have "map (ky (heap W')) ns = foldl (\<lambda>ks u. apply_upd u ks) [] us"
    using to_list_wf[OF wf] R(4) by simp
  then have "contains (heap W') s' k = Some (inserted_not_erased k us)"
    using contains_wf[OF wf, of k] keys_after_updates[of k us] by simp
  then show ?thesis using e R(1,3) by simp
qed

theorem C1_contains_iff_inserted_not_erased_witness:
  "\<exists>W' s. run low_draw 0 (Construct (Suc 0) (1 / 2) 32 0 # map (on (Suc 0)) [Ins 3, Ins 5, Era 3]) demo_world = Some W' \<and>
           objs W' (Suc 0) = Some s \<and>
           contains (heap W') s 5 = Some True \<and> contains (heap W') s 3 = Some False"
proof -
  note T = C1_contains_iff_inserted_not_erased[OF reach_demo objs_demo(2), of "1 / 2" 32 0 "[Ins 3, Ins 5, Era 3]"]
  from T[of 5] obtain W' s where 1: "run low_draw 0 (Construct (Suc 0) (1 / 2) 32 0 # map (on (Suc 0)) [Ins 3, Ins 5, Era 3]) demo_world = Some W'"
    "objs W' (Suc 0) = Some s" "contains (heap W') s 5 = Some (inserted_not_erased 5 [Ins 3, Ins 5, Era (3::nat)])"
    by blast
  from T[of 3] 1(1,2) have "contains (heap W') s 3 = Some (inserted_not_erased 3 [Ins 3, Ins 5, Era (3::nat)])"
    by auto
  with 1 show ?thesis by simp
qed

text \<open>
  C5 (amended). For a list of height at least 0 and a cap of at least 1, the drawn level
  is in \<open>[1, maxAllowedLevel]\<close> and never exceeds the current height plus one; it is
  reached by raising the level from 1 while the draw is below \<open>p\<close>, the level is below
  the cap and the level does not exceed the current height (the source tests
  \<^verbatim>\<open>level < maxLevel_ + 1\<close>); each test of the condition consumes one draw.
\<close>

theorem C5_randomLevel_range:
  assumes "1 \<le> maxAllowedLevel s" "0 \<le> maxLevel s"
  shows "1 \<le> fst (randomLevel draw s) \<and> fst (randomLevel draw s) \<le> maxAllowedLevel s \<and>
         fst (randomLevel draw s) \<le> maxLevel s + 1 \<and>
         (\<forall>L. 1 \<le> L \<and> L < fst (randomLevel draw s) \<longrightarrow> rises draw s L) \<and>
         \<not> rises draw s (fst (randomLevel draw s)) \<and>
         snd (randomLevel draw s) = s\<lparr>rng := after_draws draw (rng s) (nat (fst (randomLevel draw s)))\<rparr>"
proof -
  let ?r = "fst (randomLevel_loop draw s 1 (rng s))"
  note C = randomLevel_loop_char[of 1 draw s "rng s"]
  have up: "?r \<le> max 1 (min (maxAllowedLevel s) (maxLevel s + 1))"
    by (rule randomLevel_loop_upper)
  have lo: "1 \<le> ?r" using C by blast
  have n: "Suc (nat (?r - 1)) = nat ?r" using lo by simp
  have 1: "\<forall>L. 1 \<le> L \<and> L < ?r \<longrightarrow> rises draw s L"
    using C unfolding rises_def by blast
  have 2: "\<not> rises draw s ?r" using C unfolding rises_def by blast
  have 3: "snd (randomLevel_loop draw s 1 (rng s)) = after_draws draw (rng s) (nat ?r)"
    using C n by simp
  show ?thesis
    unfolding randomLevel_state using lo up assms 1 2 3 by simp
qed

theorem C5_randomLevel_range_witness:
  "fst (randomLevel low_draw flat_list) = 2 \<and> rises low_draw flat_list 1 \<and>
   \<not> rises low_draw flat_list 2"
proof -
  have a: "(1::int) \<le> maxAllowedLevel flat_list" "(0::int) \<le> maxLevel flat_list"
    by (simp_all add: flat_list_def)
  note T = C5_randomLevel_range[OF a, of low_draw]
  have r1: "rises low_draw flat_list 1"
    by (simp add: rises_def after_draws_def low_draw_def flat_list_def)
  have r3: "\<not> rises low_draw flat_list L" if "2 \<le> L" for L
    using that by (simp add: rises_def flat_list_def)
  have "fst (randomLevel low_draw flat_list) \<le> 2" using T by (simp add: flat_list_def)
  moreover have "fst (randomLevel low_draw flat_list) \<noteq> 1" using T r1 by auto
  moreover have "1 \<le> fst (randomLevel low_draw flat_list)" using T by blast
  ultimately have "fst (randomLevel low_draw flat_list) = 2" by linarith
  then show ?thesis using r1 r3[of 2] by simp
qed

text \<open>
  C5 as stated fails: with every draw below \<open>p\<close>, height 1 and cap 32 the source
  returns level 2, while the loop as the claim words it (the level may rise while it does
  not exceed the height plus one) returns level 3, which exceeds the height plus one.
\<close>

theorem C5_counterexample:
  "fst (randomLevel low_draw flat_list) = 2 \<and> randomLevel_stated low_draw flat_list = 3 \<and>
   \<not> randomLevel_stated low_draw flat_list \<le> maxLevel flat_list + 1"
proof -
  have s: "randomLevel_stated low_draw flat_list = 3"
    unfolding randomLevel_stated_def
    apply (subst randomLevel_stated_loop.simps, simp add: low_draw_def flat_list_def)
    apply (subst randomLevel_stated_loop.simps, simp add: low_draw_def flat_list_def)
    apply (subst randomLevel_stated_loop.simps, simp add: low_draw_def flat_list_def)
    done
  have c: "fst (randomLevel low_draw flat_list) = 2"
    unfolding randomLevel_state
    apply (subst randomLevel_loop.simps, simp add: low_draw_def flat_list_def)
    apply (subst randomLevel_loop.simps, simp add: low_draw_def flat_list_def)
    done
  show ?thesis using s c by (simp add: flat_list_def)
qed

lemma reach_list:
  assumes "reach draw dk W" "objs W i = Some s"
  obtains ns h where "heap_ok (heap W)" "wf_nodes (heap W) s ns" "head s = Some h"
    "to_list (heap W) s = Some (map (ky (heap W)) ns)"
    "sorted_wrt (<) (map (ky (heap W)) ns)"
proof -
  from reach_wf[OF assms] obtain ns where ok: "heap_ok (heap W)" and wf: "wf_nodes (heap W) s ns"
    by blast
  from wf_nodes_head[OF wf] obtain h where h: "head s = Some h" by blast
  show thesis by (rule that[OF ok wf h to_list_wf[OF wf] keys_sorted[OF wf]])
qed

lemma strict_sorted_distinct: "sorted_wrt (<) (ks::'k::linorder list) \<Longrightarrow> distinct ks"
  using sorted_wrt_map_distinct[of "\<lambda>x. x" ks] by simp

lemma filter_neq_remove1: "distinct ks \<Longrightarrow> filter (\<lambda>x. x \<noteq> k) ks = remove1 k ks"
  by (simp add: distinct_remove1_removeAll removeAll_filter_not_eq) (metis)

lemma to_list_contains:
  assumes "wf_nodes H s ns" "to_list H s = Some ks"
  shows "contains H s k = Some (k \<in> set ks)"
proof -
  from to_list_wf[OF assms(1)] assms(2) have ks: "ks = map (ky H) ns" by simp
  show ?thesis unfolding ks by (rule contains_wf[OF assms(1)])
qed

text \<open>A reachable state in which the list named 0 holds the key 7.\<close>

lemma reach_with_key:
  "\<exists>W s. reach low_draw 0 W \<and> objs W 0 = Some s \<and> to_list (heap W) s = Some [7::nat]"
proof -
  have inv: "winv demo_world" by (rule reach_winv[OF reach_demo])
  from exec_upd[OF inv objs_demo(1), of low_draw 0 "Ins 7"]
  obtain W' s' ks where R: "exec low_draw 0 (on 0 (Ins 7)) demo_world = Some W'" "objs W' 0 = Some s'"
    "to_list (heap demo_world) flat_list = Some ks" "to_list (heap W') s' = Some (apply_upd (Ins 7) ks)"
    by blast
  have "to_list (heap demo_world) flat_list = Some []"
    by (subst to_list_def, simp add: begin_it_def demo_world_def flat_list_def get_next_def,
        subst iterate.simps, simp add: end_it_def)
  with R(3) have "ks = []" by simp
  with R(4) have "to_list (heap W') s' = Some [7]" by (simp add: ins_keys_def)
  moreover have "reach low_draw 0 W'" by (rule reach.step[OF reach_demo R(1)])
  ultimately show ?thesis using R(2) by blast
qed

text \<open>
  C2. For every list of a reachable state and every key \<open>k\<close>, with \<open>ks\<close> the (duplicate
  free) sequence that iteration yields: if \<open>k\<close> is absent, \<open>erase k\<close> returns false and
  leaves heap and list unchanged; if \<open>k\<close> is present, \<open>erase k\<close> returns true and
  iteration then yields \<open>ks\<close> with the one occurrence of \<open>k\<close> removed.
\<close>

theorem C2_erase_result_and_sequence:
  assumes "reach draw dk W" "objs W i = Some s"
  shows "\<exists>ks. to_list (heap W) s = Some ks \<and> distinct ks \<and>
           (k \<notin> set ks \<longrightarrow> erase k (heap W, s) = Some (False, heap W, s)) \<and>
           (k \<in> set ks \<longrightarrow>
              (\<exists>H' s'. erase k (heap W, s) = Some (True, H', s') \<and>
                       to_list H' s' = Some (remove1 k ks)))"
proof -
  from assms obtain ns h where L: "heap_ok (heap W)" "wf_nodes (heap W) s ns" "head s = Some h"
    "to_list (heap W) s = Some (map (ky (heap W)) ns)" "sorted_wrt (<) (map (ky (heap W)) ns)"
    by (rule reach_list)
  let ?ks = "map (ky (heap W)) ns"
  have d: "distinct ?ks" by (rule strict_sorted_distinct[OF L(5)])
  have a: "erase k (heap W, s) = Some (False, heap W, s)" if "k \<notin> set ?ks"
    using erase_absent[OF L(2), of k] that by simp
  have b: "\<exists>H' s'. erase k (heap W, s) = Some (True, H', s') \<and> to_list H' s' = Some (remove1 k ?ks)"
    if "k \<in> set ?ks"
  proof -
    from erase_list[OF L(1,2,3), of k]
    obtain H' s' ns' where R: "erase k (heap W, s) = Some (k \<in> set ?ks, H', s')" "wf_nodes H' s' ns'"
      "map (ky H') ns' = filter (\<lambda>x. x \<noteq> k) ?ks"
      by blast
    from to_list_wf[OF R(2)] R(3) filter_neq_remove1[OF d, of k]
    have "to_list H' s' = Some (remove1 k ?ks)" by simp
    with R(1) that show ?thesis by simp
  qed
  show ?thesis using L(4) d a b by blast
qed

theorem C2_erase_result_and_sequence_witness:
  "\<exists>W s H' s'. reach low_draw 0 W \<and> objs W 0 = Some s \<and> to_list (heap W) s = Some [7::nat] \<and>
      erase 5 (heap W, s) = Some (False, heap W, s) \<and>
      erase 7 (heap W, s) = Some (True, H', s') \<and> to_list H' s' = Some []"
proof -
  from reach_with_key obtain W s where W: "reach low_draw 0 W" "objs W 0 = Some s"
    "to_list (heap W) s = Some [7::nat]"
    by blast
  from C2_erase_result_and_sequence[OF W(1,2), of 5] W(3)
  have 1: "erase 5 (heap W, s) = Some (False, heap W, s)" by auto
  from C2_erase_result_and_sequence[OF W(1,2), of 7] W(3)
  obtain H' s' where 2: "erase 7 (heap W, s) = Some (True, H', s')" "to_list H' s' = Some []"
    by auto
  from W 1 2 show ?thesis by blast
qed

text \<open>
  C3. For every list of a reachable state: if \<open>k\<close> is already present, \<open>insert k\<close> changes
  neither the heap nor the list; and inserting \<open>k\<close> twice yields the state, hence the
  iteration sequence, that inserting it once yields.
\<close>

theorem C3_insert_idempotent:
  assumes "reach draw dk W" "objs W i = Some s"
  shows "(contains (heap W) s k = Some True \<longrightarrow> insert_key draw k (heap W, s) = Some (heap W, s)) \<and>
         (\<exists>H1 s1 ks. insert_key draw k (heap W, s) = Some (H1, s1) \<and>
                     insert_key draw k (H1, s1) = Some (H1, s1) \<and>
                     to_list H1 s1 = Some ks \<and> k \<in> set ks)"
proof -
  from assms obtain ns h where L: "heap_ok (heap W)" "wf_nodes (heap W) s ns"
    by (rule reach_list)
  have a: "insert_key draw k (heap W, s) = Some (heap W, s)" if "contains (heap W) s k = Some True"
    using insert_key_present[OF L(2), of k draw] contains_wf[OF L(2), of k] that by simp
  from insert_key_list[OF L(1,2), of draw k]
  obtain H1 s1 ns1 where R: "insert_key draw k (heap W, s) = Some (H1, s1)" "wf_nodes H1 s1 ns1"
    "map (ky H1) ns1 = ins_keys k (map (ky (heap W)) ns)"
    by blast
  have k: "k \<in> set (map (ky H1) ns1)" unfolding R(3) set_ins_keys by simp
  then have "insert_key draw k (H1, s1) = Some (H1, s1)"
    using insert_key_present[OF R(2), of k draw] by simp
  with R(1) to_list_wf[OF R(2)] k a show ?thesis by blast
qed

theorem C3_insert_idempotent_witness:
  "\<exists>W s. reach low_draw 0 W \<and> objs W 0 = Some s \<and> to_list (heap W) s = Some [7::nat] \<and>
      insert_key low_draw 7 (heap W, s) = Some (heap W, s)"
proof -
  from reach_with_key obtain W s where W: "reach low_draw 0 W" "objs W 0 = Some s"
    "to_list (heap W) s = Some [7::nat]"
    by blast
  from reach_list[OF W(1,2)] obtain ns where ns: "wf_nodes (heap W) s ns" by metis
  have "contains (heap W) s 7 = Some True"
    using to_list_contains[OF ns W(3), of 7] by simp
  with C3_insert_idempotent[OF W(1,2), of 7]
  have "insert_key low_draw 7 (heap W, s) = Some (heap W, s)" by blast
  with W show ?thesis by blast
qed

text \<open>
  C10. For every list of a reachable state in which \<open>k\<close> is present, \<open>insert k\<close> returns
  with the engine state (and everything else) unchanged, so every program that continues
  after the duplicate insertion runs exactly as it does without it.
\<close>

theorem C10_duplicate_insert_keeps_rng:
  assumes "reach draw dk W" "objs W i = Some s" "contains (heap W) s k = Some True"
  shows "\<exists>H' s'. insert_key draw k (heap W, s) = Some (H', s') \<and> rng s' = rng s \<and>
           exec draw dk (Insert i k) W = Some W \<and>
           (\<forall>cs. run draw dk (Insert i k # cs) W = run draw dk cs W)"
proof -
  from assms(1,2) obtain ns h where L: "wf_nodes (heap W) s ns"
    by (rule reach_list)
  have a: "insert_key draw k (heap W, s) = Some (heap W, s)"
    using insert_key_present[OF L, of k draw] contains_wf[OF L, of k] assms(3) by simp
  have "W\<lparr>heap := heap W, objs := (objs W)(i \<mapsto> s)\<rparr> = W"
    using assms(2) by (simp add: map_upd_triv)
  with a assms(2) have e: "exec draw dk (Insert i k) W = Some W" by simp
  then have "\<forall>cs. run draw dk (Insert i k # cs) W = run draw dk cs W" by simp
  with a e show ?thesis by simp
qed

theorem C10_duplicate_insert_keeps_rng_witness:
  "\<exists>W s. reach low_draw 0 W \<and> objs W 0 = Some s \<and> contains (heap W) s (7::nat) = Some True \<and>
      exec low_draw 0 (Insert 0 7) W = Some W \<and>
      run low_draw 0 [Insert 0 7, Insert 0 9] W = run low_draw 0 [Insert 0 9] W"
proof -
  from reach_with_key obtain W s where W: "reach low_draw 0 W" "objs W 0 = Some s"
    "to_list (heap W) s = Some [7::nat]"
    by blast
  from reach_list[OF W(1,2)] obtain ns where ns: "wf_nodes (heap W) s ns" by metis
  have c: "contains (heap W) s 7 = Some True"
    using to_list_contains[OF ns W(3), of 7] by simp
  from C10_duplicate_insert_keeps_rng[OF W(1,2) c]
  have "exec low_draw 0 (Insert 0 7) W = Some W"
    "run low_draw 0 [Insert 0 7, Insert 0 9] W = run low_draw 0 [Insert 0 9] W"
    by blast+
  with W c show ?thesis by blast
qed

lemma walk_seg: "seg H i p as None \<Longrightarrow> walk H i p = Some as"
proof (induction as arbitrary: p)
  case Nil
  then show ?case by (subst walk.simps) simp
next
  case (Cons a as)
  from Cons.prems obtain r where r: "p = Some a" "get_next H a i = Some r" "seg H i r as None"
    by (auto split: option.splits)
  show ?case using Cons.IH[OF r(3)] r(1,2) by (subst walk.simps) simp
qed

lemma level_nodes_wf:
  assumes "wf_nodes H s ns" "i < nat (maxLevel s)"
  shows "level_nodes H s i = Some (filter (\<lambda>a. i < lvl H a) ns)"
proof -
  from wf_nodes_head[OF assms(1)] obtain h where h: "head s = Some h" "nat (maxLevel s) = lvl H h"
    "wfh H h ns" by blast
  from wfh_seg[OF h(3), of i] assms(2) h(2)
  obtain r where r: "get_next H h i = Some r" "seg H i r (filter (\<lambda>a. i < lvl H a) ns) None"
    by (auto split: option.splits)
  show ?thesis using h(1) r(1) walk_seg[OF r(2)] by (simp add: level_nodes_def)
qed

lemma structural_inv_wf:
  assumes wf: "wf_nodes H s ns"
  shows "structural_inv H s"
proof -
  from wf_nodes_head[OF wf] obtain h where h: "head s = Some h" "nat (maxLevel s) = lvl H h"
    "wfh H h ns" by blast
  let ?L = "\<lambda>i. filter (\<lambda>a. i < lvl H a) ns"
  have L0: "?L 0 = ns" by (rule wfh_level0[OF h(3)])
  have 1: "0 < nat (maxLevel s)" using h(2) wfh_lvl_head[OF h(3)] by simp
  have 2: "\<forall>i<nat (maxLevel s). level_nodes H s i = Some (?L i)"
    using level_nodes_wf[OF wf] by blast
  have 3: "sorted_wrt (<) (map (ky H) (?L 0))" unfolding L0 by (rule wfh_sorted[OF h(3)])
  have 4: "distinct (map (ky H) (?L 0))" by (rule strict_sorted_distinct[OF 3])
  have 5: "subseq (?L i) (?L (i - 1))" if "0 < i" for i
  proof -
    have "?L i = filter (\<lambda>a. i < lvl H a) (?L (i - 1))"
      unfolding filter_filter by (rule filter_cong) (use that in auto)
    then show ?thesis by (metis subseq_filter_left)
  qed
  have 6: "set (?L i) \<subseteq> set (?L j)" if "j \<le> i" for i j using that by auto
  have 7: "to_list H s = Some (map (ky H) (?L 0))" unfolding L0 by (rule to_list_wf[OF wf])
  show ?thesis unfolding structural_inv_def
    using 1 2 3 4 5 6 7 by (intro exI[of _ ?L] conjI allI impI) blast+
qed

lemma winv_structural:
  assumes "winv V" "objs V i = Some s"
  shows "structural_inv (heap V) s"
proof -
  from winv_wf(2)[OF assms] obtain ns where "wf_nodes (heap V) s ns" by blast
  then show ?thesis by (rule structural_inv_wf)
qed

text \<open>
  C4. In every reachable state every live list satisfies the structural invariants, and
  every call (construction, insert, erase, contains, iteration, dump, both moves,
  destruction) on live objects returns a state in which every live list satisfies them.
\<close>

theorem C4_operations_preserve_invariants:
  assumes "reach draw dk W" "valid c W"
  shows "(\<forall>i s. objs W i = Some s \<longrightarrow> structural_inv (heap W) s) \<and>
         (\<exists>W'. exec draw dk c W = Some W' \<and>
               (\<forall>i s. objs W' i = Some s \<longrightarrow> structural_inv (heap W') s))"
proof -
  have inv: "winv W" by (rule reach_winv[OF assms(1)])
  from exec_winv[OF inv assms(2), of draw dk] obtain W' where W': "exec draw dk c W = Some W'" "winv W'"
    by blast
  show ?thesis using winv_structural[OF inv] winv_structural[OF W'(2)] W'(1) by blast
qed

theorem C4_operations_preserve_invariants_witness:
  "structural_inv (heap demo_world) flat_list \<and>
   (\<exists>W'. exec low_draw 0 (Insert 0 7) demo_world = Some W' \<and>
         (\<forall>i s. objs W' i = Some s \<longrightarrow> structural_inv (heap W') s))"
proof -
  have v: "valid (Insert 0 (7::nat)) demo_world" by (simp add: objs_demo)
  from C4_operations_preserve_invariants[OF reach_demo v] objs_demo(1)
  show ?thesis by blast
qed

text \<open>
  C6. For every list of a reachable state whose cap is at least 1, the height is between
  1 and the cap, the head has exactly as many links as the height, and no node of the
  list has more links than the height.
\<close>

theorem C6_height_bounds:
  assumes "reach draw dk W" "objs W i = Some s" "1 \<le> maxAllowedLevel s"
  shows "1 \<le> maxLevel s \<and> maxLevel s \<le> maxAllowedLevel s \<and>
         (\<exists>h as. head s = Some h \<and> int (lvl (heap W) h) = maxLevel s \<and>
                 level_nodes (heap W) s 0 = Some as \<and>
                 (\<forall>a\<in>set as. 1 \<le> lvl (heap W) a \<and> int (lvl (heap W) a) \<le> maxLevel s))"
proof -
  from reach_wf[OF assms(1,2)] obtain ns where wf: "wf_nodes (heap W) s ns"
    and bd: "maxLevel s \<le> max 1 (maxAllowedLevel s)" by blast
  from wf_nodes_head[OF wf] obtain h where h: "head s = Some h" "nat (maxLevel s) = lvl (heap W) h"
    "wfh (heap W) h ns" by blast
  have pos: "0 < lvl (heap W) h" by (rule wfh_lvl_head[OF h(3)])
  have ml: "maxLevel s = int (lvl (heap W) h)" using h(2) pos by linarith
  have l0: "level_nodes (heap W) s 0 = Some ns"
    using level_nodes_wf[OF wf, of 0] pos h(2) wfh_level0[OF h(3)] by simp
  have n: "1 \<le> lvl (heap W) a \<and> int (lvl (heap W) a) \<le> maxLevel s" if "a \<in> set ns" for a
    using wfh_lvl_pos[OF h(3) that] wfh_lvl_le[OF h(3) that] ml by simp
  show ?thesis using ml pos bd assms(3) h(1) l0 n by auto
qed

theorem C6_height_bounds_witness:
  "\<exists>W s. reach low_draw 0 W \<and> objs W 0 = Some s \<and> to_list (heap W) s = Some [7::nat] \<and>
      1 \<le> maxLevel s \<and> maxLevel s \<le> 32 \<and>
      (\<exists>h as. head s = Some h \<and> int (lvl (heap W) h) = maxLevel s \<and>
              level_nodes (heap W) s 0 = Some as \<and>
              (\<forall>a\<in>set as. 1 \<le> lvl (heap W) a \<and> int (lvl (heap W) a) \<le> maxLevel s))"
proof -
  have inv: "winv demo_world" by (rule reach_winv[OF reach_demo])
  from exec_upd[OF inv objs_demo(1), of low_draw 0 "Ins 7"]
  obtain W' s' ks where R: "exec low_draw 0 (on 0 (Ins 7)) demo_world = Some W'" "objs W' 0 = Some s'"
    "to_list (heap demo_world) flat_list = Some ks" "to_list (heap W') s' = Some (apply_upd (Ins 7) ks)"
    by blast
  have "to_list (heap demo_world) flat_list = Some []"
    by (subst to_list_def, simp add: begin_it_def demo_world_def flat_list_def get_next_def,
        subst iterate.simps, simp add: end_it_def)
  with R(3) have "ks = []" by simp
  with R(4) have t: "to_list (heap W') s' = Some [7]" by (simp add: ins_keys_def)
  have r: "reach low_draw 0 W'" by (rule reach.step[OF reach_demo R(1)])
  have m: "maxAllowedLevel s' = 32"
  proof -
    have "insert_key low_draw 7 (heap demo_world, flat_list) \<noteq> None"
      using R(1) objs_demo(1) by (auto split: option.splits)
    then obtain H1 where "insert_key low_draw 7 (heap demo_world, flat_list) = Some (H1, s')"
      using R(1,2) objs_demo(1) by (auto split: option.splits)
    moreover from reach_wf(2)[OF reach_demo objs_demo(1)] obtain ns0
      where wf0: "wf_nodes (heap demo_world) flat_list ns0" by blast
    moreover from wf_nodes_head[OF wf0] obtain h0 where h0: "head flat_list = Some h0" by blast
    have "7 \<notin> ky (heap demo_world) ` set ns0"
      using to_list_wf[OF wf0] \<open>to_list (heap demo_world) flat_list = Some []\<close> by simp
    from insert_key_fresh[OF reach_wf(1)[OF reach_demo objs_demo(1)] wf0 this h0, of low_draw]
    have "\<exists>H'. insert_key low_draw 7 (heap demo_world, flat_list) =
             Some (H', (snd (randomLevel low_draw flat_list))\<lparr>maxLevel := max (maxLevel flat_list) (fst (randomLevel low_draw flat_list))\<rparr>)"
      by blast
    ultimately have "s' = (snd (randomLevel low_draw flat_list))\<lparr>maxLevel := max (maxLevel flat_list) (fst (randomLevel low_draw flat_list))\<rparr>"
      by auto
    then show ?thesis by (simp add: randomLevel_fields flat_list_def)
  qed
  have "1 \<le> maxAllowedLevel s'" using m by simp
  from C6_height_bounds[OF r R(2) this] r R(2) t m show ?thesis by auto
qed

section \<open>The example programs\<close>

lemma run_reach: "reach draw dk W \<Longrightarrow> run draw dk cs W = Some W' \<Longrightarrow> reach draw dk W'"
proof (induction cs arbitrary: W)
  case Nil
  then show ?case by simp
next
  case (Cons c cs)
  from Cons.prems(2) obtain W1 where 1: "exec draw dk c W = Some W1" "run draw dk cs W1 = Some W'"
    by (auto split: option.splits)
  from Cons.IH[OF reach.step[OF Cons.prems(1) 1(1)] 1(2)] show ?case .
qed

lemma levels_run: "(case run low_draw 0 levels_prog init_world of None \<Rightarrow> False | Some W \<Rightarrow> True)"
  by code_simp

lemma levels_obj: "(case objs levels_world 0 of None \<Rightarrow> False | Some s \<Rightarrow> True)"
  by code_simp

lemma reach_levels: "reach low_draw 0 levels_world" "objs levels_world 0 = Some levels_list"
proof -
  from levels_run obtain W where W: "run low_draw 0 levels_prog init_world = Some W"
    by (auto split: option.splits)
  then have "levels_world = W" by (simp add: levels_world_def)
  with run_reach[OF reach.init W] show "reach low_draw 0 levels_world" by simp
  from levels_obj show "objs levels_world 0 = Some levels_list"
    by (auto simp: levels_list_def split: option.splits)
qed

lemma levels_keys: "to_list (heap levels_world) levels_list = Some [7, 8, 9]"
  by code_simp

lemma levels_height: "maxLevel levels_list = 4" "probability levels_list = 1 / 2"
  by code_simp+

lemma levels_level_keys:
  "map (\<lambda>l. map_option (map (ky (heap levels_world))) (level_nodes (heap levels_world) levels_list l))
     [0, 1, 2, 3]
   = [Some [7, 8, 9], Some [7, 8, 9], Some [8, 9], Some [8]]"
  by code_simp

lemma levels_erase:
  "(case erase 8 (heap levels_world, levels_list) of None \<Rightarrow> False
    | Some (b, H', s') \<Rightarrow> b \<and> to_list H' s' = Some [7, 9] \<and> maxLevel s' = 3)"
  by code_simp

lemma two_run: "(case run low_draw 0 two_prog init_world of None \<Rightarrow> False | Some W \<Rightarrow> True)"
  by code_simp

lemma two_objs:
  "(case objs two_world 0 of None \<Rightarrow> False | Some s \<Rightarrow> True)"
  "(case objs two_world 1 of None \<Rightarrow> False | Some s \<Rightarrow> True)"
  "(case objs two_world 2 of None \<Rightarrow> True | Some s \<Rightarrow> False)"
  by code_simp+

lemma reach_two: "reach low_draw 0 two_world" "objs two_world 0 = Some two_src"
  "objs two_world 1 = Some two_dst" "objs two_world 2 = None"
proof -
  from two_run obtain W where W: "run low_draw 0 two_prog init_world = Some W"
    by (auto split: option.splits)
  then have "two_world = W" by (simp add: two_world_def)
  with run_reach[OF reach.init W] show "reach low_draw 0 two_world" by simp
  from two_objs(1) show "objs two_world 0 = Some two_src"
    by (auto simp: two_src_def split: option.splits)
  from two_objs(2) show "objs two_world 1 = Some two_dst"
    by (auto simp: two_dst_def split: option.splits)
  from two_objs(3) show "objs two_world 2 = None"
    by (auto split: option.splits)
qed

lemma two_keys:
  "to_list (heap two_world) two_src = Some [7, 9]"
  "to_list (heap two_world) two_dst = Some [3]"
  by code_simp+

lemma two_fields:
  "probability two_src = 1 / 2" "maxAllowedLevel two_src = 32" "maxLevel two_src = 3"
  "rng two_src = 5"
  by code_simp+

lemma two_after_move_run:
  "(case run low_draw 0 [MoveAssign 1 0, Insert 0 5] two_world of None \<Rightarrow> False
    | Some W \<Rightarrow> map_option (to_list (heap W)) (objs W 0) = Some (Some [5]) \<and>
               map_option (to_list (heap W)) (objs W 1) = Some (Some [7, 9]))"
  by code_simp

lemma two_after_move:
  "\<exists>W s d. run low_draw 0 [MoveAssign 1 0, Insert 0 5] two_world = Some W \<and>
     objs W 0 = Some s \<and> objs W 1 = Some d \<and>
     to_list (heap W) s = Some [5] \<and> to_list (heap W) d = Some [7, 9]"
proof -
  from two_after_move_run obtain W where W: "run low_draw 0 [MoveAssign 1 0, Insert 0 5] two_world = Some W"
    "map_option (to_list (heap W)) (objs W 0) = Some (Some [5])"
    "map_option (to_list (heap W)) (objs W 1) = Some (Some [7, 9])"
    by (cases "run low_draw 0 [MoveAssign 1 0, Insert 0 5] two_world") simp_all
  from W(2) obtain s where s: "objs W 0 = Some s" "to_list (heap W) s = Some [5]" by auto
  from W(3) obtain d where d: "objs W 1 = Some d" "to_list (heap W) d = Some [7, 9]" by auto
  from W(1) s d show ?thesis by blast
qed

lemma to_list_frame:
  assumes wf: "wf_nodes H s ns" and fr: "\<And>a. a \<in> fp s ns \<Longrightarrow> cells H' a = cells H a"
  shows "to_list H' s = to_list H s"
proof -
  have wf': "wf_nodes H' s ns" by (rule wf_nodes_frame[OF wf fr])
  have "ky H' a = ky H a" if "a \<in> set ns" for a
  proof -
    from that have "a \<in> fp s ns" by (simp add: fp_def)
    from fr[OF this] show ?thesis by (simp add: ky_def)
  qed
  then have "map (ky H') ns = map (ky H) ns" by (auto cong: map_cong)
  then show ?thesis using to_list_wf[OF wf] to_list_wf[OF wf'] by simp
qed

text \<open>The transfer out of a list \<open>ot\<close> that the heap \<open>H1\<close> still holds unchanged.\<close>

lemma transfer_keys:
  assumes ok: "heap_ok H" and wf: "wf_nodes H ot ns"
    and ok1: "heap_ok H1" and lim1: "lim H1 = lim H"
    and fr1: "\<And>a. a \<in> fp ot ns \<Longrightarrow> cells H1 a = cells H a"
  shows "\<exists>H' ot' ks. transfer dk H1 ot = (H', ot, ot') \<and>
           (H', ot') = SkipList dk (probability ot) (maxAllowedLevel ot) (rng ot) H1 \<and>
           to_list H ot = Some ks \<and> to_list H' ot = Some ks \<and> to_list H' ot' = Some [] \<and>
           maxLevel ot' = 1"
proof -
  have wf1: "wf_nodes H1 ot ns" by (rule wf_nodes_frame[OF wf fr1])
  from transfer_ok[OF ok1 wf1, of dk]
  obtain H' ot' where T: "transfer dk H1 ot = (H', ot, ot')"
    "(H', ot') = SkipList dk (probability ot) (maxAllowedLevel ot) (rng ot) H1"
    "wf_nodes H' ot' []" "maxLevel ot' = 1"
    "\<And>b. b \<noteq> lim H1 \<Longrightarrow> cells H' b = cells H1 b"
    by blast
  have "cells H' a = cells H a" if "a \<in> fp ot ns" for a
  proof -
    have "a < lim H" by (rule fp_below_lim[OF ok wf that])
    then have "cells H' a = cells H1 a" using T(5)[of a] lim1 by simp
    with fr1[OF that] show ?thesis by simp
  qed
  from to_list_frame[OF wf this] have "to_list H' ot = to_list H ot" by simp
  with to_list_wf[OF wf] to_list_wf[OF T(3)] T(1,2,4) show ?thesis by simp
qed

text \<open>
  C8. For every list \<open>ot\<close> (named \<open>j\<close>) of a reachable state: move construction into a
  fresh name \<open>i\<close> and move assignment to another live list \<open>i\<close> return; the destination
  becomes the former source object (head, height, cap, probability, engine state) and
  iterates the same key sequence; the source becomes exactly what the constructor yields
  for the same cap, probability and engine state (height 1, a fresh head), so it iterates
  nothing and behaves as a fresh list. Move assignment of a list to itself leaves the
  state unchanged.
\<close>

theorem C8_move_transfers:
  assumes "reach draw dk W" "objs W j = Some ot"
  shows "(objs W i = None \<longrightarrow>
           (\<exists>W' ot' ks. exec draw dk (MoveConstruct i j) W = Some W' \<and>
              objs W' i = Some ot \<and> objs W' j = Some ot' \<and>
              to_list (heap W) ot = Some ks \<and> to_list (heap W') ot = Some ks \<and>
              to_list (heap W') ot' = Some [] \<and> maxLevel ot' = 1 \<and>
              (heap W', ot') = SkipList dk (probability ot) (maxAllowedLevel ot) (rng ot) (heap W))) \<and>
         (\<forall>t. i \<noteq> j \<and> objs W i = Some t \<longrightarrow>
           (\<exists>H1 W' ot' ks. release (heap W) t = Some H1 \<and>
              exec draw dk (MoveAssign i j) W = Some W' \<and>
              objs W' i = Some ot \<and> objs W' j = Some ot' \<and>
              to_list (heap W) ot = Some ks \<and> to_list (heap W') ot = Some ks \<and>
              to_list (heap W') ot' = Some [] \<and> maxLevel ot' = 1 \<and>
              (heap W', ot') = SkipList dk (probability ot) (maxAllowedLevel ot) (rng ot) H1)) \<and>
         exec draw dk (MoveAssign j j) W = Some W"
proof -
  from reach_winv[OF assms(1)] obtain f where f: "winv_f W f" unfolding winv_def by blast
  note I = winv_fD[OF f]
  note wf = I(2)[OF assms(2)]
  have a: "\<exists>W' ot' ks. exec draw dk (MoveConstruct i j) W = Some W' \<and>
              objs W' i = Some ot \<and> objs W' j = Some ot' \<and>
              to_list (heap W) ot = Some ks \<and> to_list (heap W') ot = Some ks \<and>
              to_list (heap W') ot' = Some [] \<and> maxLevel ot' = 1 \<and>
              (heap W', ot') = SkipList dk (probability ot) (maxAllowedLevel ot) (rng ot) (heap W)"
    if vi: "objs W i = None"
  proof -
    have ij: "i \<noteq> j" using vi assms(2) by auto
    from transfer_keys[OF I(1) wf I(1) refl refl, of dk]
    obtain H' ot' ks where T: "transfer dk (heap W) ot = (H', ot, ot')"
      "(H', ot') = SkipList dk (probability ot) (maxAllowedLevel ot) (rng ot) (heap W)"
      "to_list (heap W) ot = Some ks" "to_list H' ot = Some ks" "to_list H' ot' = Some []"
      "maxLevel ot' = 1"
      by blast
    have "exec draw dk (MoveConstruct i j) W =
          Some (W\<lparr>heap := H', objs := (objs W)(i \<mapsto> ot, j \<mapsto> ot')\<rparr>)"
      using vi assms(2) T(1) by (simp add: move_construct_def)
    with T ij show ?thesis by simp
  qed
  have b: "\<exists>H1 W' ot' ks. release (heap W) t = Some H1 \<and>
              exec draw dk (MoveAssign i j) W = Some W' \<and>
              objs W' i = Some ot \<and> objs W' j = Some ot' \<and>
              to_list (heap W) ot = Some ks \<and> to_list (heap W') ot = Some ks \<and>
              to_list (heap W') ot' = Some [] \<and> maxLevel ot' = 1 \<and>
              (heap W', ot') = SkipList dk (probability ot) (maxAllowedLevel ot) (rng ot) H1"
    if ij: "i \<noteq> j" and vi: "objs W i = Some t" for t
  proof -
    from wf_nodes_head[OF I(2)[OF vi]] obtain h where h: "head t = Some h" by blast
    from release_wf[OF I(2)[OF vi] h]
    obtain H1 where H1: "release (heap W) t = Some H1" "lim H1 = lim (heap W)"
      "\<And>b. cells H1 b = (if b \<in> insert h (set (f i)) then None else cells (heap W) b)"
      by blast
    have fpt: "fp t (f i) = insert h (set (f i))" using h by (simp add: fp_def)
    have ok1: "heap_ok H1" using I(1) H1(2,3) by (simp add: heap_ok_def)
    have fr1: "cells H1 a = cells (heap W) a" if "a \<in> fp ot (f j)" for a
    proof -
      from I(4)[OF ij vi assms(2)] that have "a \<notin> insert h (set (f i))" unfolding fpt by blast
      then show ?thesis using H1(3) by simp
    qed
    from transfer_keys[OF I(1) wf ok1 H1(2) fr1, of dk]
    obtain H' ot' ks where T: "transfer dk H1 ot = (H', ot, ot')"
      "(H', ot') = SkipList dk (probability ot) (maxAllowedLevel ot) (rng ot) H1"
      "to_list (heap W) ot = Some ks" "to_list H' ot = Some ks" "to_list H' ot' = Some []"
      "maxLevel ot' = 1"
      by blast
    have "exec draw dk (MoveAssign i j) W =
          Some (W\<lparr>heap := H', objs := (objs W)(i \<mapsto> ot, j \<mapsto> ot')\<rparr>)"
      using vi assms(2) ij H1(1) T(1) by (simp add: move_assign_def)
    with T ij H1(1) show ?thesis by simp
  qed
  have c: "exec draw dk (MoveAssign j j) W = Some W"
    using assms(2) by (simp add: move_assign_def)
  show ?thesis using a b c by blast
qed

theorem C8_move_transfers_witness:
  "objs two_world 0 = Some two_src \<and> objs two_world 1 = Some two_dst \<and>
   to_list (heap two_world) two_src = Some [7, 9] \<and>
   to_list (heap two_world) two_dst = Some [3] \<and>
   (\<exists>H1 W' ot'. release (heap two_world) two_dst = Some H1 \<and>
      exec low_draw 0 (MoveAssign 1 0) two_world = Some W' \<and>
      objs W' 1 = Some two_src \<and> objs W' 0 = Some ot' \<and>
      to_list (heap W') two_src = Some [7, 9] \<and>
      to_list (heap W') ot' = Some [] \<and> maxLevel ot' = 1 \<and>
      (heap W', ot') = SkipList 0 (1 / 2) 32 5 H1) \<and>
   (\<exists>W' ot'. exec low_draw 0 (MoveConstruct 2 0) two_world = Some W' \<and>
      objs W' 2 = Some two_src \<and> objs W' 0 = Some ot' \<and>
      to_list (heap W') two_src = Some [7, 9] \<and>
      to_list (heap W') ot' = Some [] \<and> maxLevel ot' = 1 \<and>
      (heap W', ot') = SkipList 0 (1 / 2) 32 5 (heap two_world)) \<and>
   exec low_draw 0 (MoveAssign 0 0) two_world = Some two_world \<and>
   (\<exists>W s d. run low_draw 0 [MoveAssign 1 0, Insert 0 5] two_world = Some W \<and>
      objs W 0 = Some s \<and> objs W 1 = Some d \<and>
      to_list (heap W) s = Some [5] \<and> to_list (heap W) d = Some [7, 9])"
proof -
  note A = C8_move_transfers[OF reach_two(1,2), of 1]
  note B = C8_move_transfers[OF reach_two(1,2), of 2]
  have ne: "(1::nat) \<noteq> 0" by simp
  from A ne reach_two(3)
  obtain H1 W1 o1 ks1 where a: "release (heap two_world) two_dst = Some H1"
    "exec low_draw 0 (MoveAssign 1 0) two_world = Some W1"
    "objs W1 1 = Some two_src" "objs W1 0 = Some o1"
    "to_list (heap two_world) two_src = Some ks1" "to_list (heap W1) two_src = Some ks1"
    "to_list (heap W1) o1 = Some []" "maxLevel o1 = 1"
    "(heap W1, o1) = SkipList 0 (probability two_src) (maxAllowedLevel two_src) (rng two_src) H1"
    by blast
  from B reach_two(4)
  obtain W2 o2 ks2 where b: "exec low_draw 0 (MoveConstruct 2 0) two_world = Some W2"
    "objs W2 2 = Some two_src" "objs W2 0 = Some o2"
    "to_list (heap two_world) two_src = Some ks2" "to_list (heap W2) two_src = Some ks2"
    "to_list (heap W2) o2 = Some []" "maxLevel o2 = 1"
    "(heap W2, o2) = SkipList 0 (probability two_src) (maxAllowedLevel two_src) (rng two_src)
       (heap two_world)"
    by blast
  from A have c: "exec low_draw 0 (MoveAssign 0 0) two_world = Some two_world" by blast
  from a(5) b(4) two_keys(1) have ks: "ks1 = [7, 9]" "ks2 = [7, 9]" by simp_all
  have 1: "\<exists>H1 W' ot'. release (heap two_world) two_dst = Some H1 \<and>
      exec low_draw 0 (MoveAssign 1 0) two_world = Some W' \<and>
      objs W' 1 = Some two_src \<and> objs W' 0 = Some ot' \<and>
      to_list (heap W') two_src = Some [7, 9] \<and>
      to_list (heap W') ot' = Some [] \<and> maxLevel ot' = 1 \<and>
      (heap W', ot') = SkipList 0 (1 / 2) 32 5 H1"
    using a ks(1) unfolding two_fields by blast
  have 2: "\<exists>W' ot'. exec low_draw 0 (MoveConstruct 2 0) two_world = Some W' \<and>
      objs W' 2 = Some two_src \<and> objs W' 0 = Some ot' \<and>
      to_list (heap W') two_src = Some [7, 9] \<and>
      to_list (heap W') ot' = Some [] \<and> maxLevel ot' = 1 \<and>
      (heap W', ot') = SkipList 0 (1 / 2) 32 5 (heap two_world)"
    using b ks(2) unfolding two_fields by blast
  show ?thesis using reach_two(2,3) two_keys 1 2 c two_after_move by blast
qed

text \<open>
  C9 (amended). For every list of a reachable state the dump returns; it appends to the
  sink a header line with the number of levels and the probability and then, for each
  active level from the topmost down to level 0, one line: the label of the level
  followed by the keys of the nodes reachable at that level, in order, each followed
  by a space. The dump reads the list only: the state after it is the state before it.
\<close>

theorem C9_dump_output:
  assumes "reach draw dk W" "objs W i = Some s"
  shows "\<exists>L. (\<forall>l<nat (maxLevel s). level_nodes (heap W) s l = Some (L l)) \<and>
           printByLevels (heap W) s os =
             Some (os @ [OStr ''SkipList (levels = '', OInt (maxLevel s), OStr '', p = '',
                         ODouble (probability s), OStr (''):'' @ [CHR 0x0A])] @
                   concat (map (\<lambda>l. [OStr ''Level '', OInt (int l), OStr '': ''] @
                                    concat (map (\<lambda>a. [OKey (ky (heap W) a), OChar CHR '' '']) (L l)) @
                                    [OChar (CHR 0x0A)])
                               (rev [0..<nat (maxLevel s)]))) \<and>
           exec draw dk (PrintByLevels i) W = Some W"
proof -
  from reach_wf(2)[OF assms] obtain ns where wf: "wf_nodes (heap W) s ns" by blast
  let ?L = "\<lambda>l. filter (\<lambda>a. l < lvl (heap W) a) ns"
  have 1: "\<forall>l<nat (maxLevel s). level_nodes (heap W) s l = Some (?L l)"
    using level_nodes_wf[OF wf] by blast
  have eq: "level_line (heap W) ns =
        (\<lambda>l. [OStr ''Level '', OInt (int l), OStr '': ''] @
             concat (map (\<lambda>a. [OKey (ky (heap W) a), OChar CHR '' '']) (?L l)) @ [OChar (CHR 0x0A)])"
    by (rule ext) (simp add: level_line_def key_items_def)
  have 2: "printByLevels (heap W) s os =
             Some (os @ [OStr ''SkipList (levels = '', OInt (maxLevel s), OStr '', p = '',
                         ODouble (probability s), OStr (''):'' @ [CHR 0x0A])] @
                   concat (map (\<lambda>l. [OStr ''Level '', OInt (int l), OStr '': ''] @
                                    concat (map (\<lambda>a. [OKey (ky (heap W) a), OChar CHR '' '']) (?L l)) @
                                    [OChar (CHR 0x0A)])
                               (rev [0..<nat (maxLevel s)])))"
    using printByLevels_wf[OF wf, of os] unfolding eq .
  have 3: "exec draw dk (PrintByLevels i) W = Some W"
    using assms(2) printByLevels_wf[OF wf, of "[]"] by simp
  show ?thesis using 1 2 3 by (intro exI[of _ ?L] conjI)
qed

lemma key_tokens:
  "concat (map (\<lambda>a. [OKey (f a), OChar c]) as) = concat (map (\<lambda>k. [OKey k, OChar c]) (map f as))"
  by (induction as) simp_all

text \<open>The list of the example holds 7, 8 and 9 with 2, 4 and 3 links: level 3 holds 8,
  level 2 holds 8 and 9, the levels 1 and 0 hold all three keys.\<close>

theorem C9_dump_output_witness:
  "to_list (heap levels_world) levels_list = Some [7, 8, 9] \<and>
   printByLevels (heap levels_world) levels_list [] =
     Some [OStr ''SkipList (levels = '', OInt 4, OStr '', p = '', ODouble (1 / 2),
           OStr (''):'' @ [CHR 0x0A]),
           OStr ''Level '', OInt 3, OStr '': '', OKey 8, OChar CHR '' '', OChar (CHR 0x0A),
           OStr ''Level '', OInt 2, OStr '': '', OKey 8, OChar CHR '' '', OKey 9, OChar CHR '' '',
           OChar (CHR 0x0A),
           OStr ''Level '', OInt 1, OStr '': '', OKey 7, OChar CHR '' '', OKey 8, OChar CHR '' '',
           OKey 9, OChar CHR '' '', OChar (CHR 0x0A),
           OStr ''Level '', OInt 0, OStr '': '', OKey 7, OChar CHR '' '', OKey 8, OChar CHR '' '',
           OKey 9, OChar CHR '' '', OChar (CHR 0x0A)] \<and>
   exec low_draw 0 (PrintByLevels 0) levels_world = Some levels_world"
proof -
  let ?H = "heap levels_world"
  from C9_dump_output[OF reach_levels, of "[]"]
  obtain L where L: "\<forall>l<nat (maxLevel levels_list). level_nodes ?H levels_list l = Some (L l)"
    "printByLevels ?H levels_list [] =
             Some ([] @ [OStr ''SkipList (levels = '', OInt (maxLevel levels_list), OStr '', p = '',
                         ODouble (probability levels_list), OStr (''):'' @ [CHR 0x0A])] @
                   concat (map (\<lambda>l. [OStr ''Level '', OInt (int l), OStr '': ''] @
                                    concat (map (\<lambda>a. [OKey (ky ?H a), OChar CHR '' '']) (L l)) @
                                    [OChar (CHR 0x0A)])
                               (rev [0..<nat (maxLevel levels_list)])))"
    "exec low_draw 0 (PrintByLevels 0) levels_world = Some levels_world"
    by blast
  have r: "rev [0..<nat 4] = [3, 2, 1, 0]" by code_simp
  have n: "(0::nat) < nat 4" "(1::nat) < nat 4" "(2::nat) < nat 4" "(3::nat) < nat 4" by simp_all
  note l = L(1)[unfolded levels_height, rule_format]
  have k: "map (ky ?H) (L 0) = [7, 8, 9]" "map (ky ?H) (L 1) = [7, 8, 9]"
    "map (ky ?H) (L 2) = [8, 9]" "map (ky ?H) (L 3) = [8]"
    using levels_level_keys l[OF n(1)] l[OF n(2)] l[OF n(3)] l[OF n(4)] by simp_all
  have c: "concat (map (\<lambda>a. [OKey (ky ?H a), OChar CHR '' '']) (L 0)) =
             [OKey 7, OChar CHR '' '', OKey 8, OChar CHR '' '', OKey 9, OChar CHR '' '']"
    "concat (map (\<lambda>a. [OKey (ky ?H a), OChar CHR '' '']) (L 1)) =
             [OKey 7, OChar CHR '' '', OKey 8, OChar CHR '' '', OKey 9, OChar CHR '' '']"
    "concat (map (\<lambda>a. [OKey (ky ?H a), OChar CHR '' '']) (L 2)) =
             [OKey 8, OChar CHR '' '', OKey 9, OChar CHR '' '']"
    "concat (map (\<lambda>a. [OKey (ky ?H a), OChar CHR '' '']) (L 3)) = [OKey 8, OChar CHR '' '']"
    unfolding key_tokens[of "ky ?H"] k by simp_all
  from L(2) have "printByLevels ?H levels_list [] =
     Some [OStr ''SkipList (levels = '', OInt 4, OStr '', p = '', ODouble (1 / 2),
           OStr (''):'' @ [CHR 0x0A]),
           OStr ''Level '', OInt 3, OStr '': '', OKey 8, OChar CHR '' '', OChar (CHR 0x0A),
           OStr ''Level '', OInt 2, OStr '': '', OKey 8, OChar CHR '' '', OKey 9, OChar CHR '' '',
           OChar (CHR 0x0A),
           OStr ''Level '', OInt 1, OStr '': '', OKey 7, OChar CHR '' '', OKey 8, OChar CHR '' '',
           OKey 9, OChar CHR '' '', OChar (CHR 0x0A),
           OStr ''Level '', OInt 0, OStr '': '', OKey 7, OChar CHR '' '', OKey 8, OChar CHR '' '',
           OKey 9, OChar CHR '' '', OChar (CHR 0x0A)]"
    unfolding levels_height r list.map c rev.simps by simp
  with L(3) levels_keys show ?thesis by blast
qed

text \<open>
  C9 as stated fails on the list of the example (7, 8 and 9 with 2, 4 and 3 links): the
  source writes a header line, the label \<open>Level i: \<close> before the keys of each level and a
  space after every key, also the last of a line, while the dump as the claim words it
  holds the four lines \<open>8\<close>, \<open>8 9\<close>, \<open>7 8 9\<close> and \<open>7 8 9\<close> and nothing else. The keys of each
  level, their order and the order of the levels agree.
\<close>

theorem C9_counterexample:
  "printByLevels (heap levels_world) levels_list [] =
     Some [OStr ''SkipList (levels = '', OInt 4, OStr '', p = '', ODouble (1 / 2),
           OStr (''):'' @ [CHR 0x0A]),
           OStr ''Level '', OInt 3, OStr '': '', OKey 8, OChar CHR '' '', OChar (CHR 0x0A),
           OStr ''Level '', OInt 2, OStr '': '', OKey 8, OChar CHR '' '', OKey 9, OChar CHR '' '',
           OChar (CHR 0x0A),
           OStr ''Level '', OInt 1, OStr '': '', OKey 7, OChar CHR '' '', OKey 8, OChar CHR '' '',
           OKey 9, OChar CHR '' '', OChar (CHR 0x0A),
           OStr ''Level '', OInt 0, OStr '': '', OKey 7, OChar CHR '' '', OKey 8, OChar CHR '' '',
           OKey 9, OChar CHR '' '', OChar (CHR 0x0A)] \<and>
   dump_stated (heap levels_world) levels_list =
     Some [OKey 8, OChar (CHR 0x0A),
           OKey 8, OChar CHR '' '', OKey 9, OChar (CHR 0x0A),
           OKey 7, OChar CHR '' '', OKey 8, OChar CHR '' '', OKey 9, OChar (CHR 0x0A),
           OKey 7, OChar CHR '' '', OKey 8, OChar CHR '' '', OKey 9, OChar (CHR 0x0A)] \<and>
   printByLevels (heap levels_world) levels_list [] \<noteq> dump_stated (heap levels_world) levels_list"
proof -
  have p: "printByLevels (heap levels_world) levels_list [] =
     Some [OStr ''SkipList (levels = '', OInt 4, OStr '', p = '', ODouble (1 / 2),
           OStr (''):'' @ [CHR 0x0A]),
           OStr ''Level '', OInt 3, OStr '': '', OKey 8, OChar CHR '' '', OChar (CHR 0x0A),
           OStr ''Level '', OInt 2, OStr '': '', OKey 8, OChar CHR '' '', OKey 9, OChar CHR '' '',
           OChar (CHR 0x0A),
           OStr ''Level '', OInt 1, OStr '': '', OKey 7, OChar CHR '' '', OKey 8, OChar CHR '' '',
           OKey 9, OChar CHR '' '', OChar (CHR 0x0A),
           OStr ''Level '', OInt 0, OStr '': '', OKey 7, OChar CHR '' '', OKey 8, OChar CHR '' '',
           OKey 9, OChar CHR '' '', OChar (CHR 0x0A)]"
    by code_simp
  have d: "dump_stated (heap levels_world) levels_list =
     Some [OKey 8, OChar (CHR 0x0A),
           OKey 8, OChar CHR '' '', OKey 9, OChar (CHR 0x0A),
           OKey 7, OChar CHR '' '', OKey 8, OChar CHR '' '', OKey 9, OChar (CHR 0x0A),
           OKey 7, OChar CHR '' '', OKey 8, OChar CHR '' '', OKey 9, OChar (CHR 0x0A)]"
    by code_simp
  show ?thesis unfolding p d by simp
qed

lemma seg_Some_Cons: "seg H i (Some a) xs None \<Longrightarrow> \<exists>as. xs = a # as"
  by (cases xs) auto

lemma erase_height:
  assumes ok: "heap_ok H" and wf: "wf_nodes H s ns" and hd: "head s = Some h"
  shows "\<exists>H' s'. erase k (H, s) = Some (k \<in> set (map (ky H) ns), H', s') \<and>
           head s' = Some h \<and> s' = s\<lparr>maxLevel := maxLevel s'\<rparr> \<and>
           to_list H' s' = Some (filter (\<lambda>x. x \<noteq> k) (map (ky H) ns)) \<and>
           maxLevel s' \<le> maxLevel s \<and> int (lvl H' h) = maxLevel s' \<and>
           (k \<in> set (map (ky H) ns) \<longrightarrow> maxLevel s' = 1 \<or>
              (\<exists>a as. get_next H' h (nat (maxLevel s' - 1)) = Some (Some a) \<and>
                      level_nodes H' s' (nat (maxLevel s' - 1)) = Some (a # as))) \<and>
           (k \<notin> set (map (ky H) ns) \<longrightarrow> H' = H \<and> s' = s)"
proof -
  from erase_list[OF ok wf hd, of k]
  obtain H' s' ns' where R: "erase k (H, s) = Some (k \<in> set (map (ky H) ns), H', s')"
    "wf_nodes H' s' ns'" "map (ky H') ns' = filter (\<lambda>x. x \<noteq> k) (map (ky H) ns)"
    "head s' = Some h"
    "k \<in> set (map (ky H) ns) \<longrightarrow>
       maxLevel s' = 1 \<or> (\<exists>a. get_next H' h (nat (maxLevel s' - 1)) = Some (Some a))"
    by blast
  from wf_nodes_head[OF R(2)] R(4) have h: "nat (maxLevel s') = lvl H' h" "wfh H' h ns'"
    by auto
  have ml: "int (lvl H' h) = maxLevel s'" using h(1) wfh_lvl_head[OF h(2)] by linarith
  have tl: "to_list H' s' = Some (filter (\<lambda>x. x \<noteq> k) (map (ky H) ns))"
    using to_list_wf[OF R(2)] R(3) by simp
  have top: "\<exists>as. level_nodes H' s' (nat (maxLevel s' - 1)) = Some (a # as)"
    if a: "get_next H' h (nat (maxLevel s' - 1)) = Some (Some a)" for a
  proof -
    let ?i = "nat (maxLevel s' - 1)"
    have i: "?i < nat (maxLevel s')" using ml wfh_lvl_head[OF h(2)] by linarith
    then have i': "?i < lvl H' h" using h(1) by simp
    from wfh_seg[OF h(2) i'] a have "seg H' ?i (Some a) (filter (\<lambda>b. ?i < lvl H' b) ns') None"
      by simp
    from seg_Some_Cons[OF this] level_nodes_wf[OF R(2) i] show ?thesis by auto
  qed
  have chg: "s' = s\<lparr>maxLevel := maxLevel s'\<rparr> \<and> maxLevel s' \<le> maxLevel s \<and>
             (k \<notin> set (map (ky H) ns) \<longrightarrow> H' = H \<and> s' = s)"
  proof (cases "k \<in> ky H ` set ns")
    case False
    from erase_absent[OF wf False] R(1) show ?thesis by simp
  next
    case True
    then obtain cur where cur: "cur \<in> set ns" "k = ky H cur" by blast
    from erase_present[OF ok wf cur(1) hd]
    obtain H2 m where "erase k (H, s) = Some (True, H2, s\<lparr>maxLevel := m\<rparr>)" "m \<le> maxLevel s"
      unfolding cur(2) by blast
    with R(1) have "s' = s\<lparr>maxLevel := m\<rparr>" "m \<le> maxLevel s" by simp_all
    with True show ?thesis by simp
  qed
  show ?thesis using R(1) R(4) R(5) ml tl top chg
    by (intro exI[of _ H'] exI[of _ s']) blast
qed

text \<open>
  C7. For every list of a reachable state, \<open>erase k\<close> returns, with the result that
  \<open>contains k\<close> gives, and the list then iterates the former keys without \<open>k\<close>; only the
  height of the list object changes, it does not grow, and the head has exactly that many
  links. After a successful erase the height is minimal: it is 1, or the link of the head
  at the topmost level is not null and the topmost level holds a node. An unsuccessful
  erase changes nothing.
\<close>

theorem C7_height_minimal_after_erase:
  assumes "reach draw dk W" "objs W i = Some s"
  shows "\<exists>b H' s' h ks. contains (heap W) s k = Some b \<and> to_list (heap W) s = Some ks \<and>
           erase k (heap W, s) = Some (b, H', s') \<and> head s' = Some h \<and>
           s' = s\<lparr>maxLevel := maxLevel s'\<rparr> \<and>
           to_list H' s' = Some (remove1 k ks) \<and>
           maxLevel s' \<le> maxLevel s \<and> int (lvl H' h) = maxLevel s' \<and>
           (b \<longrightarrow> maxLevel s' = 1 \<or>
              (\<exists>a as. get_next H' h (nat (maxLevel s' - 1)) = Some (Some a) \<and>
                      level_nodes H' s' (nat (maxLevel s' - 1)) = Some (a # as))) \<and>
           (\<not> b \<longrightarrow> H' = heap W \<and> s' = s)"
proof -
  from assms obtain ns h where L: "heap_ok (heap W)" "wf_nodes (heap W) s ns" "head s = Some h"
    "to_list (heap W) s = Some (map (ky (heap W)) ns)"
    "sorted_wrt (<) (map (ky (heap W)) ns)"
    by (rule reach_list)
  have f: "filter (\<lambda>x. x \<noteq> k) (map (ky (heap W)) ns) = remove1 k (map (ky (heap W)) ns)"
    by (rule filter_neq_remove1[OF strict_sorted_distinct[OF L(5)]])
  from erase_height[OF L(1,2,3), of k] contains_wf[OF L(2), of k] L(4)
  show ?thesis unfolding f by blast
qed

theorem C7_height_minimal_after_erase_witness:
  "to_list (heap levels_world) levels_list = Some [7, 8, 9] \<and> maxLevel levels_list = 4 \<and>
   contains (heap levels_world) levels_list 8 = Some True \<and>
   (\<exists>H' s' h a as. erase 8 (heap levels_world, levels_list) = Some (True, H', s') \<and>
      to_list H' s' = Some [7, 9] \<and> maxLevel s' = 3 \<and> s' = levels_list\<lparr>maxLevel := 3\<rparr> \<and>
      head s' = Some h \<and> lvl H' h = 3 \<and>
      get_next H' h 2 = Some (Some a) \<and> level_nodes H' s' 2 = Some (a # as))"
proof -
  from C7_height_minimal_after_erase[OF reach_levels, of 8]
  obtain b H' s' h ks where R: "contains (heap levels_world) levels_list 8 = Some b"
    "to_list (heap levels_world) levels_list = Some ks"
    "erase 8 (heap levels_world, levels_list) = Some (b, H', s')" "head s' = Some h"
    "s' = levels_list\<lparr>maxLevel := maxLevel s'\<rparr>"
    "to_list H' s' = Some (remove1 8 ks)" "int (lvl H' h) = maxLevel s'"
    "b \<longrightarrow> maxLevel s' = 1 \<or>
       (\<exists>a as. get_next H' h (nat (maxLevel s' - 1)) = Some (Some a) \<and>
               level_nodes H' s' (nat (maxLevel s' - 1)) = Some (a # as))"
    by blast
  from levels_erase R(3) have e: "b" "maxLevel s' = 3" by simp_all
  from R(2) levels_keys have ks: "ks = [7, 8, 9]" by simp
  from R(8) e obtain a as where a: "get_next H' h 2 = Some (Some a)"
    "level_nodes H' s' 2 = Some (a # as)" by auto
  have l: "lvl H' h = 3" using R(7) e(2) by simp
  have s: "s' = levels_list\<lparr>maxLevel := 3\<rparr>" using R(5) e(2) by simp
  from R(1,3,4,6) e ks a l s levels_keys levels_height(1) show ?thesis
    by (intro conjI exI[of _ H'] exI[of _ s'] exI[of _ h] exI[of _ a] exI[of _ as]) simp_all
qed

end
